theory Spec2Isabelle
  imports Complex_Main
begin

section \<open>JavaScript numbers\<close>

text \<open>
  The calculator computes with JavaScript numbers: IEEE 754 binary64 values. A finite
  value is kept as the rational it denotes (\<open>Fin 0\<close> is \<open>+0\<close>), the negative zero,
  the two infinities and NaN are constructors of their own. Every arithmetic operation
  computes the exact rational result and rounds it to the nearest double, ties to even,
  as the language does.
\<close>

datatype jsnum = NaN | PosInf | NegInf | NegZero | Fin rat

definition pow :: "rat \<Rightarrow> int \<Rightarrow> rat" where
  "pow b k = (if 0 \<le> k then b ^ nat k else 1 / b ^ nat (- k))"

text \<open>
  \<open>count_digits b n\<close> is the number of digits of \<open>n\<close> in base \<open>b\<close>, and
  \<open>floor_log b q\<close> is the integer \<open>e\<close> with \<open>b ^ e \<le> q < b ^ (e + 1)\<close>, for \<open>q > 0\<close>.
\<close>

function count_digits :: "int \<Rightarrow> int \<Rightarrow> int" where
  "count_digits b n = (if n < b \<or> b < 2 then 1 else 1 + count_digits b (n div b))"
  by pat_completeness auto
termination
  by (relation "measure (\<lambda>(b, n). nat n)") (auto intro!: int_div_less_self)

declare count_digits.simps [simp del]

definition floor_log :: "int \<Rightarrow> rat \<Rightarrow> int" where
  "floor_log b q =
     (if 1 \<le> q then count_digits b \<lfloor>q\<rfloor> - 1 else - count_digits b (\<lceil>1 / q\<rceil> - 1))"

definition round_half_even :: "rat \<Rightarrow> int" where
  "round_half_even q =
     (let f = \<lfloor>q\<rfloor>; r = q - of_int f
      in if r < 1 / 2 then f else if 1 / 2 < r then f + 1 else if even f then f else f + 1)"

text \<open>
  Rounding a rational to binary64: 53 bits of mantissa, exponents from \<open>-1022\<close>
  (below it the subnormal numbers share one spacing) to \<open>1023\<close>, overflow to an
  infinity, underflow to a zero of the same sign.
\<close>

definition double_of_rat :: "rat \<Rightarrow> jsnum" where
  "double_of_rat q =
     (let a = \<bar>q\<bar>;
          e = max (floor_log 2 a) (- 1022);
          m = round_half_even (a / pow 2 (e - 52))
      in if 1023 < e \<or> (e = 1023 \<and> m = 2 ^ 53) then (if q < 0 then NegInf else PosInf)
         else if m = 0 then (if q < 0 then NegZero else Fin 0)
         else Fin ((if q < 0 then - 1 else 1) * of_int m * pow 2 (e - 52)))"

fun js_neg :: "jsnum \<Rightarrow> jsnum" where
  "js_neg NaN = NaN"
| "js_neg PosInf = NegInf"
| "js_neg NegInf = PosInf"
| "js_neg NegZero = Fin 0"
| "js_neg (Fin q) = (if q = 0 then NegZero else Fin (- q))"

fun is_neg :: "jsnum \<Rightarrow> bool" where
  "is_neg NegInf = True"
| "is_neg NegZero = True"
| "is_neg (Fin q) = (q < 0)"
| "is_neg _ = False"

fun is_inf :: "jsnum \<Rightarrow> bool" where
  "is_inf PosInf = True"
| "is_inf NegInf = True"
| "is_inf _ = False"

text \<open>\<open>x === 0\<close> holds of both zeros.\<close>

fun is_zero :: "jsnum \<Rightarrow> bool" where
  "is_zero NegZero = True"
| "is_zero (Fin q) = (q = 0)"
| "is_zero _ = False"

text \<open>\<open>Number.isFinite\<close>.\<close>

fun isFinite :: "jsnum \<Rightarrow> bool" where
  "isFinite NegZero = True"
| "isFinite (Fin q) = True"
| "isFinite _ = False"

fun magnitude :: "jsnum \<Rightarrow> rat" where
  "magnitude (Fin q) = \<bar>q\<bar>"
| "magnitude _ = 0"

definition with_sign :: "bool \<Rightarrow> jsnum \<Rightarrow> jsnum" where
  "with_sign neg x = (if neg then js_neg x else x)"

fun js_add :: "jsnum \<Rightarrow> jsnum \<Rightarrow> jsnum" where
  "js_add NaN y = NaN"
| "js_add x NaN = NaN"
| "js_add PosInf NegInf = NaN"
| "js_add NegInf PosInf = NaN"
| "js_add PosInf y = PosInf"
| "js_add x PosInf = PosInf"
| "js_add NegInf y = NegInf"
| "js_add x NegInf = NegInf"
| "js_add NegZero y = y"
| "js_add x NegZero = x"
| "js_add (Fin p) (Fin q) = double_of_rat (p + q)"

definition js_sub :: "jsnum \<Rightarrow> jsnum \<Rightarrow> jsnum" where
  "js_sub x y = js_add x (js_neg y)"

definition js_mul :: "jsnum \<Rightarrow> jsnum \<Rightarrow> jsnum" where
  "js_mul x y =
     (if x = NaN \<or> y = NaN then NaN
      else if (is_inf x \<and> is_zero y) \<or> (is_zero x \<and> is_inf y) then NaN
      else if is_inf x \<or> is_inf y then with_sign (is_neg x \<noteq> is_neg y) PosInf
      else with_sign (is_neg x \<noteq> is_neg y) (double_of_rat (magnitude x * magnitude y)))"

definition js_div :: "jsnum \<Rightarrow> jsnum \<Rightarrow> jsnum" where
  "js_div x y =
     (if x = NaN \<or> y = NaN then NaN
      else if (is_inf x \<and> is_inf y) \<or> (is_zero x \<and> is_zero y) then NaN
      else if is_inf x \<or> is_zero y then with_sign (is_neg x \<noteq> is_neg y) PosInf
      else if is_inf y then with_sign (is_neg x \<noteq> is_neg y) (Fin 0)
      else with_sign (is_neg x \<noteq> is_neg y) (double_of_rat (magnitude x / magnitude y)))"

section \<open>Numbers and strings\<close>

text \<open>
  Strings are lists of characters; the display only ever holds ASCII. \<open>digits_of n\<close>
  is the decimal notation of \<open>n\<close>.
\<close>

definition digit_char :: "int \<Rightarrow> char" where
  "digit_char d = ''0123456789'' ! nat d"

function digits_of :: "int \<Rightarrow> string" where
  "digits_of n = (if n < 10 then [digit_char n] else digits_of (n div 10) @ [digit_char (n mod 10)])"
  by pat_completeness auto
termination
  by (relation "measure nat") auto

declare digits_of.simps [simp del]

definition is_digit :: "char \<Rightarrow> bool" where
  "is_digit c = (c \<in> set ''0123456789'')"

definition digit_val :: "char \<Rightarrow> int" where
  "digit_val c = of_char c - 48"

definition digits_val :: "string \<Rightarrow> int" where
  "digits_val ds = foldl (\<lambda>a c. 10 * a + digit_val c) 0 ds"

subsection \<open>\<open>Number.prototype.toString\<close>\<close>

text \<open>
  For a positive double \<open>x\<close> the language takes integers \<open>n\<close>, \<open>k\<close> and \<open>s\<close> with
  \<open>10 ^ (k - 1) \<le> s < 10 ^ k\<close> such that \<open>s * 10 ^ (n - k)\<close> rounds to \<open>x\<close> and \<open>k\<close> is as
  small as possible, \<open>s\<close> as close to \<open>x\<close> as possible. With \<open>k\<close> digits only the two
  decimals around \<open>x\<close> can round to \<open>x\<close>; \<open>pick\<close> tries them, \<open>shortest\<close> tries
  \<open>k = 1, 2, ...\<close> in turn. Seventeen digits identify every double; for a rational that
  is not a double the search may fail, and the nearest decimal of 17 digits is taken.
\<close>

definition decimal_value :: "nat \<Rightarrow> int \<times> int \<Rightarrow> rat" where
  "decimal_value k c = of_int (fst c) * pow 10 (snd c - int k)"

definition normalise :: "nat \<Rightarrow> int \<times> int \<Rightarrow> int \<times> int" where
  "normalise k c = (if fst c = 10 ^ k then (10 ^ (k - 1), snd c + 1) else c)"

definition pick :: "rat \<Rightarrow> nat \<Rightarrow> (int \<times> int) option" where
  "pick x k =
     (let n = floor_log 10 x + 1;
          lo = \<lfloor>x / pow 10 (n - int k)\<rfloor>;
          c1 = (lo, n); c2 = (lo + 1, n);
          ok1 = (double_of_rat (decimal_value k c1) = Fin x);
          ok2 = (double_of_rat (decimal_value k c2) = Fin x);
          d1 = x - decimal_value k c1;
          d2 = decimal_value k c2 - x
      in if ok1 \<and> ok2 then Some (normalise k (if d1 < d2 \<or> (d1 = d2 \<and> even lo) then c1 else c2))
         else if ok1 then Some c1
         else if ok2 then Some (normalise k c2)
         else None)"

primrec shortest :: "rat \<Rightarrow> nat list \<Rightarrow> (int \<times> int) option" where
  "shortest x [] = None"
| "shortest x (k # ks) = (case pick x k of Some c \<Rightarrow> Some c | None \<Rightarrow> shortest x ks)"

definition nearest17 :: "rat \<Rightarrow> int \<times> int" where
  "nearest17 x =
     (let n = floor_log 10 x + 1
      in normalise 17 (round_half_even (x / pow 10 (n - 17)), n))"

definition exponent_string :: "int \<Rightarrow> string" where
  "exponent_string e = (if e < 0 then ''-'' else ''+'') @ digits_of \<bar>e\<bar>"

definition layout :: "int \<times> int \<Rightarrow> string" where
  "layout c =
     (let ds = digits_of (fst c); k = int (length ds); n = snd c
      in if k \<le> n \<and> n \<le> 21 then ds @ replicate (nat (n - k)) (CHR ''0'')
         else if 0 < n \<and> n \<le> 21 then take (nat n) ds @ ''.'' @ drop (nat n) ds
         else if - 6 < n \<and> n \<le> 0 then ''0.'' @ replicate (nat (- n)) (CHR ''0'') @ ds
         else if k = 1 then ds @ ''e'' @ exponent_string (n - 1)
         else take 1 ds @ ''.'' @ drop 1 ds @ ''e'' @ exponent_string (n - 1))"

definition shortest_digits :: "rat \<Rightarrow> int \<times> int" where
  "shortest_digits x = (case shortest x [1 ..< 18] of Some c \<Rightarrow> c | None \<Rightarrow> nearest17 x)"

definition positive_string :: "rat \<Rightarrow> string" where
  "positive_string x = layout (shortest_digits x)"

fun toString :: "jsnum \<Rightarrow> string" where
  "toString NaN = ''NaN''"
| "toString PosInf = ''Infinity''"
| "toString NegInf = ''-Infinity''"
| "toString NegZero = ''0''"
| "toString (Fin q) =
     (if q = 0 then ''0''
      else if q < 0 then ''-'' @ positive_string (- q)
      else positive_string q)"

subsection \<open>\<open>Number.prototype.toPrecision\<close>\<close>

text \<open>
  \<open>toPrecision p\<close> of a positive \<open>x\<close> takes \<open>e\<close> and \<open>n\<close> with
  \<open>10 ^ (p - 1) \<le> n < 10 ^ p\<close> and \<open>n * 10 ^ (e - p + 1)\<close> as close to \<open>x\<close> as possible, the
  larger \<open>n\<close> on a tie; the exponent form is used when \<open>e < - 6\<close> or \<open>e \<ge> p\<close>.
\<close>

definition round_half_up :: "rat \<Rightarrow> int" where
  "round_half_up q = \<lfloor>q + 1 / 2\<rfloor>"

definition precision_digits :: "nat \<Rightarrow> rat \<Rightarrow> int \<times> int" where
  "precision_digits p x =
     (let e = floor_log 10 x;
          n = round_half_up (x / pow 10 (e - int p + 1))
      in if n = 10 ^ p then (10 ^ (p - 1), e + 1) else (n, e))"

definition precision_layout :: "nat \<Rightarrow> string \<Rightarrow> int \<Rightarrow> string" where
  "precision_layout p m e =
     (if e < - 6 \<or> int p \<le> e then
        (if p \<noteq> 1 then take 1 m @ ''.'' @ drop 1 m else m) @ ''e'' @ exponent_string e
      else if e = int p - 1 then m
      else if 0 \<le> e then take (nat (e + 1)) m @ ''.'' @ drop (nat (e + 1)) m
      else ''0.'' @ replicate (nat (- (e + 1))) (CHR ''0'') @ m)"

definition positive_precision :: "nat \<Rightarrow> rat \<Rightarrow> string" where
  "positive_precision p x =
     (let c = precision_digits p x in precision_layout p (digits_of (fst c)) (snd c))"

fun toPrecision :: "jsnum \<Rightarrow> nat \<Rightarrow> string" where
  "toPrecision (Fin q) p =
     (if q = 0 then precision_layout p (replicate p (CHR ''0'')) 0
      else if q < 0 then ''-'' @ positive_precision p (- q)
      else positive_precision p q)"
| "toPrecision NegZero p = precision_layout p (replicate p (CHR ''0'')) 0"
| "toPrecision x p = toString x"

subsection \<open>\<open>parseFloat\<close>\<close>

text \<open>
  \<open>parseFloat\<close> skips leading white space and reads the longest prefix that is a
  decimal literal: an optional sign, then \<open>Infinity\<close> or digits with an optional
  fraction and an optional exponent. No such prefix gives NaN.
\<close>

definition is_space :: "char \<Rightarrow> bool" where
  "is_space c = (of_char c \<in> {9, 10, 11, 12, 13, 32, 160 :: nat})"

definition exponent_part :: "string \<Rightarrow> int" where
  "exponent_part r =
     (case r of
        [] \<Rightarrow> 0
      | c # r1 \<Rightarrow>
          if c = CHR ''e'' \<or> c = CHR ''E'' then
            (case r1 of
               [] \<Rightarrow> 0
             | s # r2 \<Rightarrow>
                 if s = CHR ''-'' then - digits_val (takeWhile is_digit r2)
                 else if s = CHR ''+'' then digits_val (takeWhile is_digit r2)
                 else digits_val (takeWhile is_digit r1))
          else 0)"

definition unsigned_literal :: "string \<Rightarrow> rat option" where
  "unsigned_literal r =
     (let ip = takeWhile is_digit r;
          r1 = dropWhile is_digit r;
          dot = (r1 \<noteq> [] \<and> hd r1 = CHR ''.'');
          fp = (if dot then takeWhile is_digit (tl r1) else []);
          r3 = (if dot then dropWhile is_digit (tl r1) else r1)
      in if ip = [] \<and> fp = [] then None
         else Some (of_int (digits_val (ip @ fp)) * pow 10 (exponent_part r3 - int (length fp))))"

definition parse_unsigned :: "string \<Rightarrow> jsnum" where
  "parse_unsigned r =
     (if take 8 r = ''Infinity'' then PosInf
      else case unsigned_literal r of None \<Rightarrow> NaN | Some q \<Rightarrow> double_of_rat q)"

definition parseFloat :: "string \<Rightarrow> jsnum" where
  "parseFloat str =
     (let t = dropWhile is_space str
      in case t of
           [] \<Rightarrow> NaN
         | c # r \<Rightarrow>
             if c = CHR ''-'' then js_neg (parse_unsigned r)
             else if c = CHR ''+'' then parse_unsigned r
             else parse_unsigned t)"

section \<open>The calculator\<close>

definition DEFAULT_DISPLAY :: string where
  "DEFAULT_DISPLAY = ''0''"

record calc =
  displayValue :: string
  currentValue :: "jsnum option"
  pendingOperator :: "string option"
  awaitingNextValue :: bool
  hasError :: bool

definition initial :: calc where
  "initial = \<lparr>displayValue = DEFAULT_DISPLAY, currentValue = None, pendingOperator = None,
     awaitingNextValue = False, hasError = False\<rparr>"

text \<open>A string or null used as a condition: null and the empty string count as false.\<close>

definition truthy :: "string option \<Rightarrow> bool" where
  "truthy p = (p \<noteq> None \<and> p \<noteq> Some [])"

text \<open>A number or null used as an operand: null counts as \<open>+0\<close>.\<close>

fun number_of :: "jsnum option \<Rightarrow> jsnum" where
  "number_of None = Fin 0"
| "number_of (Some x) = x"

definition performCalculation :: "jsnum option \<Rightarrow> jsnum \<Rightarrow> string option \<Rightarrow> jsnum option" where
  "performCalculation firstValue secondValue operator =
     (if operator = Some ''+'' then Some (js_add (number_of firstValue) secondValue)
      else if operator = Some ''-'' then Some (js_sub (number_of firstValue) secondValue)
      else if operator = Some ''*'' then Some (js_mul (number_of firstValue) secondValue)
      else if operator = Some ''/'' then
        (if is_zero secondValue then None else Some (js_div (number_of firstValue) secondValue))
      else Some secondValue)"

text \<open>
  \<open>parseFloat(parseFloat(value).toPrecision(12))\<close>: the callers pass a number, which
  \<open>parseFloat\<close> first converts to its string.
\<close>

definition formatResult :: "jsnum \<Rightarrow> string" where
  "formatResult v =
     (let result = parseFloat (toPrecision (parseFloat (toString v)) 12)
      in if isFinite result then toString result else DEFAULT_DISPLAY)"

definition resetCalculator :: "calc \<Rightarrow> calc" where
  "resetCalculator s = s\<lparr>displayValue := DEFAULT_DISPLAY, currentValue := None,
     pendingOperator := None, awaitingNextValue := False, hasError := False\<rparr>"

definition signalError :: "calc \<Rightarrow> calc" where
  "signalError s = s\<lparr>displayValue := ''Error'', currentValue := None,
     pendingOperator := None, awaitingNextValue := False, hasError := True\<rparr>"

definition inputDigit :: "string \<Rightarrow> calc \<Rightarrow> calc" where
  "inputDigit digit s0 =
     (let s = (if hasError s0 then resetCalculator s0 else s0)
      in if awaitingNextValue s then s\<lparr>displayValue := digit, awaitingNextValue := False\<rparr>
         else if displayValue s = DEFAULT_DISPLAY then s\<lparr>displayValue := digit\<rparr>
         else s\<lparr>displayValue := displayValue s @ digit\<rparr>)"

definition inputDecimal :: "calc \<Rightarrow> calc" where
  "inputDecimal s0 =
     (let s = (if hasError s0 then resetCalculator s0 else s0)
      in if awaitingNextValue s then s\<lparr>displayValue := ''0.'', awaitingNextValue := False\<rparr>
         else if CHR ''.'' \<notin> set (displayValue s) then s\<lparr>displayValue := displayValue s @ ''.''\<rparr>
         else s)"

definition handleOperator :: "string \<Rightarrow> calc \<Rightarrow> calc" where
  "handleOperator operator s =
     (if hasError s then s
      else
        let inputValue = parseFloat (displayValue s)
        in if truthy (pendingOperator s) \<and> awaitingNextValue s then s\<lparr>pendingOperator := Some operator\<rparr>
           else if currentValue s = None then
             s\<lparr>currentValue := Some inputValue, pendingOperator := Some operator, awaitingNextValue := True\<rparr>
           else if truthy (pendingOperator s) then
             (case performCalculation (currentValue s) inputValue (pendingOperator s) of
                None \<Rightarrow> signalError s
              | Some result \<Rightarrow>
                  s\<lparr>currentValue := Some result, displayValue := formatResult result,
                    pendingOperator := Some operator, awaitingNextValue := True\<rparr>)
           else
             s\<lparr>currentValue := Some inputValue, pendingOperator := Some operator, awaitingNextValue := True\<rparr>)"

definition handleEquals :: "calc \<Rightarrow> calc" where
  "handleEquals s =
     (if hasError s \<or> \<not> truthy (pendingOperator s) \<or> awaitingNextValue s then s
      else
        let inputValue = parseFloat (displayValue s)
        in case performCalculation (currentValue s) inputValue (pendingOperator s) of
             None \<Rightarrow> signalError s
           | Some result \<Rightarrow>
               s\<lparr>displayValue := formatResult result, currentValue := None,
                 pendingOperator := None, awaitingNextValue := False\<rparr>)"

definition toggleSign :: "calc \<Rightarrow> calc" where
  "toggleSign s =
     (if hasError s \<or> displayValue s = DEFAULT_DISPLAY then s
      else s\<lparr>displayValue := formatResult (js_mul (parseFloat (displayValue s)) (Fin (- 1)))\<rparr>)"

definition applyPercent :: "calc \<Rightarrow> calc" where
  "applyPercent s =
     (if hasError s then s
      else
        let result = js_div (parseFloat (displayValue s)) (Fin 100);
            s1 = s\<lparr>displayValue := formatResult result\<rparr>
        in if \<not> truthy (pendingOperator s1) then s1\<lparr>currentValue := Some result\<rparr> else s1)"

text \<open>
  The click handler reads the action and its value from the button and routes them;
  an action it does not know changes nothing.
\<close>

definition handleButtonClick :: "string \<Rightarrow> string \<Rightarrow> calc \<Rightarrow> calc" where
  "handleButtonClick action val s =
     (if action = ''digit'' then inputDigit val s
      else if action = ''decimal'' then inputDecimal s
      else if action = ''operator'' then handleOperator val s
      else if action = ''equals'' then handleEquals s
      else if action = ''clear'' then resetCalculator s
      else if action = ''toggleSign'' then toggleSign s
      else if action = ''percent'' then applyPercent s
      else s)"

text \<open>
  The buttons of the layout, each with the action and the value the template attaches
  to it (a button without a value carries the empty string).
\<close>

type_synonym button = "string \<times> string"

definition BUTTON_LAYOUT :: "button list" where
  "BUTTON_LAYOUT =
     [(''clear'', []), (''toggleSign'', []), (''percent'', []), (''operator'', ''/''),
      (''digit'', ''7''), (''digit'', ''8''), (''digit'', ''9''), (''operator'', ''*''),
      (''digit'', ''4''), (''digit'', ''5''), (''digit'', ''6''), (''operator'', ''-''),
      (''digit'', ''1''), (''digit'', ''2''), (''digit'', ''3''), (''operator'', ''+''),
      (''digit'', ''0''), (''decimal'', []), (''equals'', [])]"

definition click :: "button \<Rightarrow> calc \<Rightarrow> calc" where
  "click b s = handleButtonClick (fst b) (snd b) s"

text \<open>A sequence of clicks, the first of the list first.\<close>

definition clicks :: "button list \<Rightarrow> calc \<Rightarrow> calc" where
  "clicks bs s = foldl (\<lambda>s b. click b s) s bs"

text \<open>
  The display that the specification states for the digits \<open>ds\<close> entered from the initial
  state, in its words: the concatenation of the digits, with the leading zero (the \<open>0\<close>
  that the display starts with) suppressed on the first digit. This definition follows the
  specification, not the code; \<open>inputDigit\<close> above is the code.
\<close>

definition spec_digits_display :: "string \<Rightarrow> string" where
  "spec_digits_display ds = (if ds = [] then DEFAULT_DISPLAY else ds)"

section \<open>Notions for the statements about numbers\<close>

text \<open>
  The exponent of the binade that rounding works in: that of the argument, and
  \<open>-1022\<close> for everything below the normal numbers.
\<close>

definition binade :: "rat \<Rightarrow> int" where
  "binade x = max (floor_log 2 x) (- 1022)"

text \<open>The mantissa and the value that rounding gives before the range is checked.\<close>

definition mantissa :: "rat \<Rightarrow> int" where
  "mantissa a = round_half_even (a / 2 powi (binade a - 52))"

definition rounded :: "rat \<Rightarrow> rat" where
  "rounded a = of_int (mantissa a) * 2 powi (binade a - 52)"

text \<open>
  A value of the model is a double when rounding leaves it as it is. JavaScript numbers
  are doubles; the statements about conversions are about them.
\<close>

fun is_double :: "jsnum \<Rightarrow> bool" where
  "is_double (Fin q) = (double_of_rat q = Fin q)"
| "is_double _ = True"

text \<open>The tail of a literal after its digits: nothing, or an exponent.\<close>

definition tails :: "int \<Rightarrow> string set" where
  "tails e = (if e = 0 then {[]} else {}) \<union> {CHR ''e'' # exponent_string e}"

section \<open>Routing\<close>

lemma digit_button: "click (''digit'', d) s = inputDigit d s"
  by (simp add: click_def handleButtonClick_def)

lemma decimal_button: "click (''decimal'', v) s = inputDecimal s"
  by (simp add: click_def handleButtonClick_def)

lemma operator_button: "click (''operator'', v) s = handleOperator v s"
  by (simp add: click_def handleButtonClick_def)

lemma equals_button: "click (''equals'', v) s = handleEquals s"
  by (simp add: click_def handleButtonClick_def)

lemma clear_button: "click (''clear'', v) s = resetCalculator s"
  by (simp add: click_def handleButtonClick_def)

lemma toggleSign_button: "click (''toggleSign'', v) s = toggleSign s"
  by (simp add: click_def handleButtonClick_def)

lemma percent_button: "click (''percent'', v) s = applyPercent s"
  by (simp add: click_def handleButtonClick_def)

lemmas buttons = digit_button decimal_button operator_button equals_button clear_button
  toggleSign_button percent_button

lemma clicks_Nil: "clicks [] s = s"
  by (simp add: clicks_def)

lemma clicks_Cons: "clicks (b # bs) s = clicks bs (click b s)"
  by (simp add: clicks_def)

lemma clicks_snoc: "clicks (bs @ [b]) s = click b (clicks bs s)"
  by (simp add: clicks_def)

section \<open>Evaluation and the error path\<close>

lemma performCalculation_None:
  "performCalculation a b op = None \<longleftrightarrow> op = Some ''/'' \<and> is_zero b"
  by (simp add: performCalculation_def)

lemma division_by_zero_signals:
  "\<not> hasError s \<and> \<not> awaitingNextValue s \<and> pendingOperator s = Some ''/'' \<and>
      is_zero (parseFloat (displayValue s)) \<longrightarrow>
      handleEquals s = signalError s \<and>
      (currentValue s \<noteq> None \<longrightarrow> handleOperator operator s = signalError s)"
  by (simp add: handleEquals_def handleOperator_def truthy_def performCalculation_def Let_def)

lemma digit_no_error: "\<not> hasError (inputDigit d s)"
  by (simp add: inputDigit_def resetCalculator_def Let_def)

lemma decimal_no_error: "\<not> hasError (inputDecimal s)"
  by (simp add: inputDecimal_def resetCalculator_def Let_def)

lemma reset_no_error: "\<not> hasError (resetCalculator s)"
  by (simp add: resetCalculator_def)

lemma toggle_error: "hasError (toggleSign s) = hasError s"
  by (simp add: toggleSign_def)

lemma percent_error: "hasError (applyPercent s) = hasError s"
  by (simp add: applyPercent_def Let_def)

lemma equals_error:
  assumes "\<not> hasError s" "hasError (handleEquals s)"
  shows "handleEquals s = signalError s \<and> pendingOperator s = Some ''/'' \<and>
    is_zero (parseFloat (displayValue s))"
proof (cases "performCalculation (currentValue s) (parseFloat (displayValue s)) (pendingOperator s)")
  case None
  then have z: "pendingOperator s = Some ''/'' \<and> is_zero (parseFloat (displayValue s))"
    by (simp add: performCalculation_None)
  from assms None have "handleEquals s = signalError s"
    by (simp add: handleEquals_def Let_def split: if_splits)
  with z show ?thesis by simp
next
  case (Some r)
  with assms show ?thesis
    by (simp add: handleEquals_def Let_def split: if_splits)
qed

lemma operator_error:
  assumes "\<not> hasError s" "hasError (handleOperator operator s)"
  shows "handleOperator operator s = signalError s \<and> pendingOperator s = Some ''/'' \<and>
    is_zero (parseFloat (displayValue s))"
proof (cases "performCalculation (currentValue s) (parseFloat (displayValue s)) (pendingOperator s)")
  case None
  then have z: "pendingOperator s = Some ''/'' \<and> is_zero (parseFloat (displayValue s))"
    by (simp add: performCalculation_None)
  from assms None have "handleOperator operator s = signalError s"
    by (simp add: handleOperator_def Let_def split: if_splits)
  with z show ?thesis by simp
next
  case (Some r)
  with assms show ?thesis
    by (simp add: handleOperator_def Let_def split: if_splits)
qed

lemma click_error:
  assumes "\<not> hasError s" "hasError (handleButtonClick action val s)"
  shows "handleButtonClick action val s = signalError s \<and>
      (action = ''operator'' \<or> action = ''equals'') \<and>
      pendingOperator s = Some ''/'' \<and> is_zero (parseFloat (displayValue s))"
proof -
  consider (operator) "action = ''operator''" | (equals) "action = ''equals''"
    | (other) "action \<noteq> ''operator''" "action \<noteq> ''equals''"
    by blast
  then show ?thesis
  proof cases
    case operator
    with assms(2) have "hasError (handleOperator val s)"
      by (simp add: handleButtonClick_def)
    from operator_error [OF assms(1) this] operator show ?thesis
      by (simp add: handleButtonClick_def)
  next
    case equals
    with assms(2) have "hasError (handleEquals s)"
      by (simp add: handleButtonClick_def)
    from equals_error [OF assms(1) this] equals show ?thesis
      by (simp add: handleButtonClick_def)
  next
    case other
    with assms have False
      by (simp add: handleButtonClick_def digit_no_error decimal_no_error reset_no_error
          toggle_error percent_error split: if_splits)
    then show ?thesis ..
  qed
qed

lemma parse_0: "parseFloat ''0'' = Fin 0"
  by code_simp

text \<open>
  C1. \<open>performCalculation\<close> adds, subtracts and multiplies its operands, and divides them
  unless the second operand is zero: then, and only then, it returns null, never an
  exception. \<open>signalError\<close> shows \<open>Error\<close>, forgets the accumulator and the pending
  operator, clears the awaiting flag and sets the error flag. Equals and Operator take
  that path on a pending division by a displayed zero, and no click sets the error flag
  in any other way: a click that sets it is an operator or equals click on a pending
  division with a zero on the display, and leaves exactly the state of \<open>signalError\<close>.
\<close>

theorem division_by_zero_only_failure:
  "performCalculation (Some a) b (Some ''+'') = Some (js_add a b) \<and>
   performCalculation (Some a) b (Some ''-'') = Some (js_sub a b) \<and>
   performCalculation (Some a) b (Some ''*'') = Some (js_mul a b) \<and>
   performCalculation (Some a) b (Some ''/'') = (if is_zero b then None else Some (js_div a b)) \<and>
   signalError s = \<lparr>displayValue = ''Error'', currentValue = None, pendingOperator = None,
     awaitingNextValue = False, hasError = True\<rparr> \<and>
   (\<not> hasError s \<and> \<not> awaitingNextValue s \<and> pendingOperator s = Some ''/'' \<and>
      is_zero (parseFloat (displayValue s)) \<longrightarrow>
      handleEquals s = signalError s \<and>
      (currentValue s \<noteq> None \<longrightarrow> handleOperator operator s = signalError s)) \<and>
   (\<not> hasError s \<and> hasError (handleButtonClick action val s) \<longrightarrow>
      handleButtonClick action val s = signalError s \<and>
      (action = ''operator'' \<or> action = ''equals'') \<and>
      pendingOperator s = Some ''/'' \<and> is_zero (parseFloat (displayValue s)))"
proof (intro conjI)
  show "signalError s = \<lparr>displayValue = ''Error'', currentValue = None, pendingOperator = None,
     awaitingNextValue = False, hasError = True\<rparr>"
    by (simp add: signalError_def)
  show "\<not> hasError s \<and> \<not> awaitingNextValue s \<and> pendingOperator s = Some ''/'' \<and>
      is_zero (parseFloat (displayValue s)) \<longrightarrow>
      handleEquals s = signalError s \<and>
      (currentValue s \<noteq> None \<longrightarrow> handleOperator operator s = signalError s)"
    by (rule division_by_zero_signals)
  show "\<not> hasError s \<and> hasError (handleButtonClick action val s) \<longrightarrow>
      handleButtonClick action val s = signalError s \<and>
      (action = ''operator'' \<or> action = ''equals'') \<and>
      pendingOperator s = Some ''/'' \<and> is_zero (parseFloat (displayValue s))"
    using click_error by blast
qed (simp_all add: performCalculation_def)

theorem division_by_zero_only_failure_witness:
  "handleEquals \<lparr>displayValue = ''0'', currentValue = Some (Fin 6), pendingOperator = Some ''/'',
      awaitingNextValue = False, hasError = False\<rparr>
   = \<lparr>displayValue = ''Error'', currentValue = None, pendingOperator = None,
      awaitingNextValue = False, hasError = True\<rparr> \<and>
   handleOperator ''+'' \<lparr>displayValue = ''0'', currentValue = Some (Fin 6),
      pendingOperator = Some ''/'', awaitingNextValue = False, hasError = False\<rparr>
   = \<lparr>displayValue = ''Error'', currentValue = None, pendingOperator = None,
      awaitingNextValue = False, hasError = True\<rparr> \<and>
   handleButtonClick ''equals'' [] \<lparr>displayValue = ''0'', currentValue = Some (Fin 6),
      pendingOperator = Some ''/'', awaitingNextValue = False, hasError = False\<rparr>
   = \<lparr>displayValue = ''Error'', currentValue = None, pendingOperator = None,
      awaitingNextValue = False, hasError = True\<rparr>"
proof -
  let ?s = "\<lparr>displayValue = ''0'', currentValue = Some (Fin 6), pendingOperator = Some ''/'',
      awaitingNextValue = False, hasError = False\<rparr>"
  note t = division_by_zero_only_failure [of "Fin 6" "Fin 0" ?s "''+''" "''equals''" "[]"]
  have h: "\<not> hasError ?s \<and> \<not> awaitingNextValue ?s \<and> pendingOperator ?s = Some ''/'' \<and>
      is_zero (parseFloat (displayValue ?s))"
    by (simp add: parse_0)
  from t h have e: "handleEquals ?s = signalError ?s" and o: "handleOperator ''+'' ?s = signalError ?s"
    by simp_all
  from e have "hasError (handleButtonClick ''equals'' [] ?s)"
    by (simp add: handleButtonClick_def signalError_def)
  with t have c: "handleButtonClick ''equals'' [] ?s = signalError ?s"
    by simp
  from t have "signalError ?s = \<lparr>displayValue = ''Error'', currentValue = None,
      pendingOperator = None, awaitingNextValue = False, hasError = True\<rparr>"
    by blast
  with e o c show ?thesis by simp
qed

section \<open>Equals\<close>

lemma parse_5: "parseFloat ''5'' = Fin 5"
  by code_simp

lemma parse_3: "parseFloat ''3'' = Fin 3"
  by code_simp

lemma add_5_3: "js_add (Fin 5) (Fin 3) = Fin 8"
  by code_simp

lemma sub_5_3: "js_sub (Fin 5) (Fin 3) = Fin 2"
  by code_simp

lemma mul_5_3: "js_mul (Fin 5) (Fin 3) = Fin 15"
  by code_simp

lemma div_6_3: "js_div (Fin 6) (Fin 3) = Fin 2"
  by code_simp

lemma div_6_minus_zero: "performCalculation (Some (Fin 6)) NegZero (Some ''/'') = None"
  by code_simp

lemma format_8: "formatResult (Fin 8) = ''8''"
  by code_simp

lemma five_plus_three:
  "clicks [(''digit'', ''5''), (''operator'', ''+''), (''digit'', ''3''), (''equals'', [])] initial
     = initial\<lparr>displayValue := ''8''\<rparr>"
  by (simp add: clicks_Nil clicks_Cons buttons initial_def DEFAULT_DISPLAY_def inputDigit_def
      handleOperator_def handleEquals_def truthy_def performCalculation_def
      parse_5 parse_3 add_5_3 format_8 del: js_add.simps)

text \<open>
  C2. Without an error, with a pending operator (an operator is a non-empty string)
  and an operand entered, Equals evaluates the pending operator on the accumulator and
  the parsed display. When the evaluation succeeds the display becomes the formatted
  result and the accumulator, the pending operator and the awaiting flag are cleared;
  when it fails the error path is taken. From the initial state the clicks 5, +, 3, =
  end with the display \<open>8\<close>.
\<close>

theorem equals_finalises:
  "(\<not> hasError s \<and> pendingOperator s = Some operator \<and> operator \<noteq> [] \<and>
      \<not> awaitingNextValue s \<longrightarrow>
      handleEquals s =
        (case performCalculation (currentValue s) (parseFloat (displayValue s)) (Some operator) of
           None \<Rightarrow> signalError s
         | Some result \<Rightarrow>
             s\<lparr>displayValue := formatResult result, currentValue := None,
               pendingOperator := None, awaitingNextValue := False\<rparr>)) \<and>
   displayValue (clicks [(''digit'', ''5''), (''operator'', ''+''), (''digit'', ''3''),
      (''equals'', [])] initial) = ''8''"
  by (simp add: five_plus_three handleEquals_def truthy_def)

theorem equals_finalises_witness:
  "handleEquals \<lparr>displayValue = ''3'', currentValue = Some (Fin 5), pendingOperator = Some ''+'',
      awaitingNextValue = False, hasError = False\<rparr>
   = \<lparr>displayValue = ''8'', currentValue = None, pendingOperator = None,
      awaitingNextValue = False, hasError = False\<rparr>"
  using equals_finalises [of "\<lparr>displayValue = ''3'', currentValue = Some (Fin 5),
      pendingOperator = Some ''+'', awaitingNextValue = False, hasError = False\<rparr>" "''+''"]
  by (simp add: performCalculation_def parse_3 add_5_3 format_8 del: js_add.simps)

section \<open>The error latch\<close>

text \<open>
  C3. While the error flag is set, Operator, Equals, ToggleSign and Percent leave the
  state as it is; a digit or the decimal point first resets the calculator and is then
  processed from the initial state, which clears the flag; Clear resets in any state.
  So a click that leaves the error state is a clear, digit or decimal click.
\<close>

theorem error_latch:
  "resetCalculator s = initial \<and>
   (hasError s \<longrightarrow>
     handleOperator operator s = s \<and> handleEquals s = s \<and> toggleSign s = s \<and> applyPercent s = s \<and>
     inputDigit digit s = inputDigit digit (resetCalculator s) \<and>
     inputDecimal s = inputDecimal (resetCalculator s) \<and>
     inputDigit digit s = initial\<lparr>displayValue := digit\<rparr> \<and>
     inputDecimal s = initial\<lparr>displayValue := ''0.''\<rparr> \<and>
     (\<forall>action val. \<not> hasError (handleButtonClick action val s) \<longrightarrow>
        action = ''clear'' \<or> action = ''digit'' \<or> action = ''decimal''))"
  by (auto simp add: handleOperator_def handleEquals_def toggleSign_def applyPercent_def
      inputDigit_def inputDecimal_def resetCalculator_def initial_def DEFAULT_DISPLAY_def
      handleButtonClick_def)

theorem error_latch_witness:
  "handleOperator ''+'' (signalError initial) = signalError initial \<and>
   handleEquals (signalError initial) = signalError initial \<and>
   toggleSign (signalError initial) = signalError initial \<and>
   applyPercent (signalError initial) = signalError initial \<and>
   inputDigit ''7'' (signalError initial) = initial\<lparr>displayValue := ''7''\<rparr> \<and>
   inputDecimal (signalError initial) = initial\<lparr>displayValue := ''0.''\<rparr> \<and>
   resetCalculator (signalError initial) = initial"
proof -
  have "hasError (signalError initial)"
    by (simp add: signalError_def)
  with error_latch [of "signalError initial" "''+''" "''7''"] show ?thesis
    by blast
qed

section \<open>Digits\<close>

lemma digit_step:
  "\<not> hasError s \<Longrightarrow> \<not> awaitingNextValue s \<Longrightarrow>
     inputDigit d s = s\<lparr>displayValue := (if displayValue s = ''0'' then d else displayValue s @ d)\<rparr>"
  by (simp add: inputDigit_def DEFAULT_DISPLAY_def)

lemma dropWhile_zero_snoc:
  "(let r = dropWhile (\<lambda>c. c = CHR ''0'') (ds @ [d]) in if r = [] then ''0'' else r) =
   (let r = dropWhile (\<lambda>c. c = CHR ''0'') ds in if r = [] then [d] else r @ [d])"
proof (cases "\<forall>c \<in> set ds. c = CHR ''0''")
  case True
  then have "dropWhile (\<lambda>c. c = CHR ''0'') ds = []"
    by simp
  moreover from True
  have "dropWhile (\<lambda>c. c = CHR ''0'') (ds @ [d]) = dropWhile (\<lambda>c. c = CHR ''0'') [d]"
    by simp
  ultimately show ?thesis
    by simp
next
  case False
  then have "dropWhile (\<lambda>c. c = CHR ''0'') ds \<noteq> []"
    by simp
  moreover from False
  have "dropWhile (\<lambda>c. c = CHR ''0'') (ds @ [d]) = dropWhile (\<lambda>c. c = CHR ''0'') ds @ [d]"
    by auto
  ultimately show ?thesis
    by simp
qed

lemma dropWhile_zero_not_zero: "dropWhile (\<lambda>c. c = CHR ''0'') ds \<noteq> ''0''"
proof
  assume a: "dropWhile (\<lambda>c. c = CHR ''0'') ds = ''0''"
  then have "dropWhile (\<lambda>c. c = CHR ''0'') ds \<noteq> []"
    by simp
  then have "\<not> (\<lambda>c. c = CHR ''0'') (hd (dropWhile (\<lambda>c. c = CHR ''0'') ds))"
    by (rule hd_dropWhile)
  with a show False
    by simp
qed

text \<open>
  C4, as the code has it. After any sequence of digit clicks from the initial state the
  display is the concatenation of the digits entered with every leading zero suppressed:
  a display \<open>0\<close> is replaced by the next digit, so a zero never stays in front of another
  digit, and the display is \<open>0\<close> when no digit other than zero was entered. Nothing else
  of the state changes.
\<close>

theorem digits_concatenate:
  "clicks (map (\<lambda>d. (''digit'', [d])) ds) initial =
     initial\<lparr>displayValue :=
       (let r = dropWhile (\<lambda>c. c = CHR ''0'') ds in if r = [] then ''0'' else r)\<rparr>"
proof (induction ds rule: rev_induct)
  case Nil
  show ?case by (simp add: clicks_Nil initial_def DEFAULT_DISPLAY_def)
next
  case (snoc d ds)
  let ?r = "dropWhile (\<lambda>c. c = CHR ''0'') ds"
  let ?s = "initial\<lparr>displayValue := (let r = ?r in if r = [] then ''0'' else r)\<rparr>"
  have "clicks (map (\<lambda>d. (''digit'', [d])) (ds @ [d])) initial = inputDigit [d] ?s"
    using snoc by (simp add: clicks_snoc digit_button)
  also have "\<dots> = ?s\<lparr>displayValue := (if displayValue ?s = ''0'' then [d] else displayValue ?s @ [d])\<rparr>"
    by (rule digit_step) (simp_all add: initial_def)
  also have "\<dots> = initial\<lparr>displayValue := (let r = ?r in if r = [] then [d] else r @ [d])\<rparr>"
    by (simp add: Let_def dropWhile_zero_not_zero)
  finally show ?case
    by (simp only: dropWhile_zero_snoc)
qed

theorem digits_concatenate_witness:
  "displayValue (clicks [(''digit'', ''1''), (''digit'', ''2''), (''digit'', ''0''),
      (''digit'', ''3'')] initial) = ''1203'' \<and>
   displayValue (clicks [(''digit'', ''0''), (''digit'', ''0''), (''digit'', ''7'')] initial) = ''7''"
  using digits_concatenate [of "''1203''"] digits_concatenate [of "''007''"]
  by simp

text \<open>
  C4, as the specification words it, fails when the digits start with more than one zero.
  After 0, 0, 7 the display is \<open>7\<close>: a display \<open>0\<close> is replaced by every digit that
  follows it, not only by the first. The concatenation of the entered digits after the
  initial zero has given way to the first digit is \<open>007\<close>, and with the first entered
  zero dropped as well it is \<open>07\<close>; the display is neither.
\<close>

theorem digits_concatenate_counterexample:
  "displayValue (clicks [(''digit'', ''0''), (''digit'', ''0''), (''digit'', ''7'')] initial) = ''7'' \<and>
   spec_digits_display ''007'' = ''007'' \<and>
   displayValue (clicks [(''digit'', ''0''), (''digit'', ''0''), (''digit'', ''7'')] initial) \<noteq>
     spec_digits_display ''007'' \<and>
   displayValue (clicks [(''digit'', ''0''), (''digit'', ''0''), (''digit'', ''7'')] initial) \<noteq> ''07''"
  by code_simp

section \<open>Operators\<close>

text \<open>
  C5. Without an error, with a pending operator (a non-empty string) and the next
  operand still awaited, an operator click replaces the pending operator and nothing
  else: display, accumulator and the awaiting flag stay as they were. From such a
  state, \<open>+\<close> and then \<open>*\<close> leave \<open>*\<close> pending and the accumulator as it was before
  both clicks.
\<close>

theorem operator_substitution:
  "\<not> hasError s \<and> pendingOperator s = Some p \<and> p \<noteq> [] \<and> awaitingNextValue s \<longrightarrow>
     handleOperator operator s = s\<lparr>pendingOperator := Some operator\<rparr> \<and>
     handleOperator ''*'' (handleOperator ''+'' s) = s\<lparr>pendingOperator := Some ''*''\<rparr> \<and>
     currentValue (handleOperator ''*'' (handleOperator ''+'' s)) = currentValue s"
  by (simp add: handleOperator_def truthy_def)

theorem operator_substitution_witness:
  "handleOperator ''*'' \<lparr>displayValue = ''5'', currentValue = Some (Fin 5),
      pendingOperator = Some ''+'', awaitingNextValue = True, hasError = False\<rparr>
   = \<lparr>displayValue = ''5'', currentValue = Some (Fin 5), pendingOperator = Some ''*'',
      awaitingNextValue = True, hasError = False\<rparr>"
  using operator_substitution [of "\<lparr>displayValue = ''5'', currentValue = Some (Fin 5),
      pendingOperator = Some ''+'', awaitingNextValue = True, hasError = False\<rparr>" "''+''" "''*''"]
  by simp

section \<open>Percent and sign\<close>

lemma parse_50: "parseFloat ''50'' = Fin 50"
  by code_simp

lemma div_50_100: "js_div (Fin 50) (Fin 100) = Fin (1 / 2)"
  by code_simp

lemma format_half: "formatResult (Fin (1 / 2)) = ''0.5''"
  by code_simp

lemma fifty_percent:
  "clicks [(''digit'', ''5''), (''digit'', ''0''), (''percent'', [])] initial
     = initial\<lparr>displayValue := ''0.5'', currentValue := Some (Fin (1 / 2))\<rparr>"
  by (simp add: clicks_Nil clicks_Cons buttons initial_def DEFAULT_DISPLAY_def inputDigit_def
      applyPercent_def truthy_def parse_50 div_50_100 format_half)

text \<open>
  C6. Without an error, Percent shows the formatted hundredth of the parsed display.
  With no pending operator the accumulator becomes that hundredth; with a pending
  operator (a non-empty string) the accumulator stays as it was. From the initial state
  the clicks 5, 0, % give the display \<open>0.5\<close> and the accumulator one half.
\<close>

theorem percent_rescales:
  "(\<not> hasError s \<longrightarrow>
      displayValue (applyPercent s) = formatResult (js_div (parseFloat (displayValue s)) (Fin 100)) \<and>
      (pendingOperator s = None \<longrightarrow>
         currentValue (applyPercent s) = Some (js_div (parseFloat (displayValue s)) (Fin 100))) \<and>
      (\<forall>operator. pendingOperator s = Some operator \<and> operator \<noteq> [] \<longrightarrow>
         currentValue (applyPercent s) = currentValue s)) \<and>
   displayValue (clicks [(''digit'', ''5''), (''digit'', ''0''), (''percent'', [])] initial) = ''0.5'' \<and>
   currentValue (clicks [(''digit'', ''5''), (''digit'', ''0''), (''percent'', [])] initial)
     = Some (Fin (1 / 2))"
  by (simp add: fifty_percent applyPercent_def truthy_def Let_def)

theorem percent_rescales_witness:
  "displayValue (applyPercent \<lparr>displayValue = ''50'', currentValue = None,
      pendingOperator = None, awaitingNextValue = False, hasError = False\<rparr>) = ''0.5'' \<and>
   currentValue (applyPercent \<lparr>displayValue = ''50'', currentValue = None,
      pendingOperator = None, awaitingNextValue = False, hasError = False\<rparr>) = Some (Fin (1 / 2)) \<and>
   displayValue (applyPercent \<lparr>displayValue = ''50'', currentValue = Some (Fin 200),
      pendingOperator = Some ''+'', awaitingNextValue = False, hasError = False\<rparr>) = ''0.5'' \<and>
   currentValue (applyPercent \<lparr>displayValue = ''50'', currentValue = Some (Fin 200),
      pendingOperator = Some ''+'', awaitingNextValue = False, hasError = False\<rparr>) = Some (Fin 200)"
  using percent_rescales [of "\<lparr>displayValue = ''50'', currentValue = None,
      pendingOperator = None, awaitingNextValue = False, hasError = False\<rparr>"]
    percent_rescales [of "\<lparr>displayValue = ''50'', currentValue = Some (Fin 200),
      pendingOperator = Some ''+'', awaitingNextValue = False, hasError = False\<rparr>"]
  by (simp add: parse_50 div_50_100 format_half)

lemma negate_5: "formatResult (js_mul (parseFloat ''5'') (Fin (- 1))) = ''-5''"
  by code_simp

text \<open>
  C9. ToggleSign changes nothing when the error flag is set or the display is \<open>0\<close>,
  so it leaves the initial state as it is. Otherwise it replaces the display by the
  formatted product of the parsed display and \<open>-1\<close> and leaves the accumulator, the
  pending operator and both flags as they were.
\<close>

theorem toggleSign_frame:
  "(hasError s \<or> displayValue s = ''0'' \<longrightarrow> toggleSign s = s) \<and>
   (\<not> (hasError s \<or> displayValue s = ''0'') \<longrightarrow>
      toggleSign s =
        s\<lparr>displayValue := formatResult (js_mul (parseFloat (displayValue s)) (Fin (- 1)))\<rparr>) \<and>
   toggleSign initial = initial \<and> displayValue (toggleSign initial) = ''0''"
  by (simp add: toggleSign_def DEFAULT_DISPLAY_def initial_def)

theorem toggleSign_frame_witness:
  "toggleSign \<lparr>displayValue = ''5'', currentValue = Some (Fin 2), pendingOperator = Some ''+'',
      awaitingNextValue = False, hasError = False\<rparr>
   = \<lparr>displayValue = ''-5'', currentValue = Some (Fin 2), pendingOperator = Some ''+'',
      awaitingNextValue = False, hasError = False\<rparr> \<and>
   toggleSign \<lparr>displayValue = ''0'', currentValue = Some (Fin 2), pendingOperator = Some ''+'',
      awaitingNextValue = True, hasError = False\<rparr>
   = \<lparr>displayValue = ''0'', currentValue = Some (Fin 2), pendingOperator = Some ''+'',
      awaitingNextValue = True, hasError = False\<rparr> \<and>
   toggleSign (signalError initial) = signalError initial"
  using toggleSign_frame [of "\<lparr>displayValue = ''5'', currentValue = Some (Fin 2),
      pendingOperator = Some ''+'', awaitingNextValue = False, hasError = False\<rparr>"]
    toggleSign_frame [of "\<lparr>displayValue = ''0'', currentValue = Some (Fin 2),
      pendingOperator = Some ''+'', awaitingNextValue = True, hasError = False\<rparr>"]
    toggleSign_frame [of "signalError initial"]
  by (simp add: negate_5 signalError_def)

text \<open>
  C10. Percent never changes the awaiting flag or the pending operator. Right after
  an operator was accepted (no error, next operand awaited) it rescales the display and
  leaves the flag set, so the next digit replaces the display: after that digit the
  state differs from the one without the Percent click at most in the accumulator, and
  with a pending operator (a non-empty string) not at all.
\<close>

theorem percent_keeps_awaiting:
  "awaitingNextValue (applyPercent s) = awaitingNextValue s \<and>
   pendingOperator (applyPercent s) = pendingOperator s \<and>
   (\<not> hasError s \<and> awaitingNextValue s \<longrightarrow>
      displayValue (applyPercent s) = formatResult (js_div (parseFloat (displayValue s)) (Fin 100)) \<and>
      awaitingNextValue (applyPercent s) \<and>
      displayValue (inputDigit digit (applyPercent s)) = digit \<and>
      inputDigit digit (applyPercent s)
        = (inputDigit digit s)\<lparr>currentValue := currentValue (applyPercent s)\<rparr> \<and>
      (\<forall>operator. pendingOperator s = Some operator \<and> operator \<noteq> [] \<longrightarrow>
         inputDigit digit (applyPercent s) = inputDigit digit s))"
  by (simp add: applyPercent_def inputDigit_def truthy_def Let_def)

theorem percent_keeps_awaiting_witness:
  "applyPercent \<lparr>displayValue = ''50'', currentValue = Some (Fin 50),
      pendingOperator = Some ''+'', awaitingNextValue = True, hasError = False\<rparr>
   = \<lparr>displayValue = ''0.5'', currentValue = Some (Fin 50), pendingOperator = Some ''+'',
      awaitingNextValue = True, hasError = False\<rparr> \<and>
   inputDigit ''7'' (applyPercent \<lparr>displayValue = ''50'', currentValue = Some (Fin 50),
      pendingOperator = Some ''+'', awaitingNextValue = True, hasError = False\<rparr>)
   = \<lparr>displayValue = ''7'', currentValue = Some (Fin 50), pendingOperator = Some ''+'',
      awaitingNextValue = False, hasError = False\<rparr>"
proof -
  let ?s = "\<lparr>displayValue = ''50'', currentValue = Some (Fin 50),
      pendingOperator = Some ''+'', awaitingNextValue = True, hasError = False\<rparr>"
  note t = percent_keeps_awaiting [of ?s "''7''"]
  have h: "\<not> hasError ?s \<and> awaitingNextValue ?s"
    by simp
  have p: "pendingOperator ?s = Some ''+'' \<and> ''+'' \<noteq> []"
    by simp
  from t h p have "inputDigit ''7'' (applyPercent ?s) = inputDigit ''7'' ?s"
    by blast
  then have d: "inputDigit ''7'' (applyPercent ?s) = \<lparr>displayValue = ''7'',
      currentValue = Some (Fin 50), pendingOperator = Some ''+'',
      awaitingNextValue = False, hasError = False\<rparr>"
    by (simp add: inputDigit_def)
  from t h
  have "displayValue (applyPercent ?s) = formatResult (js_div (parseFloat (displayValue ?s)) (Fin 100))"
    by blast
  then have "displayValue (applyPercent ?s) = ''0.5''"
    by (simp add: parse_50 div_50_100 format_half)
  then have "applyPercent ?s = \<lparr>displayValue = ''0.5'', currentValue = Some (Fin 50),
      pendingOperator = Some ''+'', awaitingNextValue = True, hasError = False\<rparr>"
    by (simp add: applyPercent_def truthy_def Let_def)
  with d show ?thesis
    by simp
qed

section \<open>Decimal points\<close>

lemma digit_char_no_point: "d < 10 \<Longrightarrow> digit_char d \<noteq> CHR ''.''"
proof -
  assume "d < 10"
  then have "nat d < length ''0123456789''"
    by simp
  then have "''0123456789'' ! nat d \<in> set ''0123456789''"
    by (rule nth_mem)
  then show ?thesis
    unfolding digit_char_def by auto
qed

lemma digits_of_no_point: "CHR ''.'' \<notin> set (digits_of n)"
proof (induction n rule: digits_of.induct)
  case (1 n)
  show ?case
  proof (cases "n < 10")
    case True
    with digit_char_no_point [of n] show ?thesis
      by (auto simp add: digits_of.simps [of n])
  next
    case False
    with 1 digit_char_no_point [of "n mod 10"] show ?thesis
      by (auto simp add: digits_of.simps [of n])
  qed
qed

lemma exponent_string_no_point: "CHR ''.'' \<notin> set (exponent_string e)"
  by (simp add: exponent_string_def digits_of_no_point)

lemma no_point_take: "CHR ''.'' \<notin> set xs \<Longrightarrow> count_list (take n xs) (CHR ''.'') = 0"
  by (meson count_notin in_set_takeD)

lemma no_point_drop: "CHR ''.'' \<notin> set xs \<Longrightarrow> count_list (drop n xs) (CHR ''.'') = 0"
  by (meson count_notin in_set_dropD)

lemma no_point_replicate: "count_list (replicate n (CHR ''0'')) (CHR ''.'') = 0"
  by (simp add: count_list_0_iff)

lemma layout_points: "count_list (layout c) (CHR ''.'') \<le> Suc 0"
  by (simp add: layout_def Let_def digits_of_no_point exponent_string_no_point
      no_point_take no_point_drop no_point_replicate)

lemma toString_points: "count_list (toString v) (CHR ''.'') \<le> Suc 0"
  by (cases v) (simp_all add: positive_string_def layout_points)

lemma formatResult_points: "count_list (formatResult v) (CHR ''.'') \<le> Suc 0"
  by (simp add: formatResult_def Let_def toString_points DEFAULT_DISPLAY_def)


lemma inputDigit_points:
  "CHR ''.'' \<notin> set d \<Longrightarrow> count_list (displayValue s) (CHR ''.'') \<le> Suc 0 \<Longrightarrow>
     count_list (displayValue (inputDigit d s)) (CHR ''.'') \<le> Suc 0"
  by (simp add: inputDigit_def Let_def resetCalculator_def DEFAULT_DISPLAY_def)

lemma inputDecimal_points:
  "count_list (displayValue s) (CHR ''.'') \<le> Suc 0 \<Longrightarrow>
     count_list (displayValue (inputDecimal s)) (CHR ''.'') \<le> Suc 0"
  by (simp add: inputDecimal_def Let_def resetCalculator_def DEFAULT_DISPLAY_def)

lemma handleOperator_points:
  "count_list (displayValue s) (CHR ''.'') \<le> Suc 0 \<Longrightarrow>
     count_list (displayValue (handleOperator operator s)) (CHR ''.'') \<le> Suc 0"
  by (simp add: handleOperator_def Let_def signalError_def formatResult_points split: option.splits)

lemma handleEquals_points:
  "count_list (displayValue s) (CHR ''.'') \<le> Suc 0 \<Longrightarrow>
     count_list (displayValue (handleEquals s)) (CHR ''.'') \<le> Suc 0"
  by (simp add: handleEquals_def Let_def signalError_def formatResult_points split: option.splits)

lemma toggleSign_points:
  "count_list (displayValue s) (CHR ''.'') \<le> Suc 0 \<Longrightarrow>
     count_list (displayValue (toggleSign s)) (CHR ''.'') \<le> Suc 0"
  by (simp add: toggleSign_def formatResult_points)

lemma applyPercent_points:
  "count_list (displayValue s) (CHR ''.'') \<le> Suc 0 \<Longrightarrow>
     count_list (displayValue (applyPercent s)) (CHR ''.'') \<le> Suc 0"
  by (simp add: applyPercent_def Let_def formatResult_points)

lemma resetCalculator_points:
  "count_list (displayValue (resetCalculator s)) (CHR ''.'') \<le> Suc 0"
  by (simp add: resetCalculator_def DEFAULT_DISPLAY_def)

lemma click_points:
  assumes "CHR ''.'' \<notin> set (snd b)" "count_list (displayValue s) (CHR ''.'') \<le> Suc 0"
  shows "count_list (displayValue (click b s)) (CHR ''.'') \<le> Suc 0"
  using assms
  by (simp add: click_def handleButtonClick_def inputDigit_points inputDecimal_points
      handleOperator_points handleEquals_points toggleSign_points applyPercent_points
      resetCalculator_points)

lemma layout_values: "b \<in> set BUTTON_LAYOUT \<Longrightarrow> CHR ''.'' \<notin> set (snd b)"
  by (auto simp add: BUTTON_LAYOUT_def)

lemma clicks_points:
  "set bs \<subseteq> set BUTTON_LAYOUT \<Longrightarrow> count_list (displayValue (clicks bs initial)) (CHR ''.'') \<le> Suc 0"
proof (induction bs rule: rev_induct)
  case Nil
  show ?case
    by (simp add: clicks_Nil initial_def DEFAULT_DISPLAY_def)
next
  case (snoc b bs)
  then have "CHR ''.'' \<notin> set (snd b)"
    by (simp add: layout_values)
  moreover from snoc have "count_list (displayValue (clicks bs initial)) (CHR ''.'') \<le> Suc 0"
    by simp
  ultimately show ?case
    unfolding clicks_snoc by (rule click_points)
qed

lemma inputDecimal_idem: "inputDecimal (inputDecimal s) = inputDecimal s"
  by (simp add: inputDecimal_def Let_def resetCalculator_def DEFAULT_DISPLAY_def)

lemma inputDecimal_appends:
  "\<not> hasError s \<and> \<not> awaitingNextValue s \<longrightarrow>
     inputDecimal s = (if CHR ''.'' \<in> set (displayValue s) then s
        else s\<lparr>displayValue := displayValue s @ ''.''\<rparr>)"
  by (simp add: inputDecimal_def)

text \<open>
  C7. After any sequence of clicks on the buttons of the layout, from the initial state,
  the display holds at most one decimal point. The decimal button appends a point only
  to a display without one, so clicking it twice is the same as clicking it once, and
  no string that \<open>formatResult\<close> returns holds more than one point.
\<close>

theorem display_one_decimal_point:
  "(set bs \<subseteq> set BUTTON_LAYOUT \<longrightarrow>
      count_list (displayValue (clicks bs initial)) (CHR ''.'') \<le> 1) \<and>
   (\<not> hasError s \<and> \<not> awaitingNextValue s \<longrightarrow>
      inputDecimal s = (if CHR ''.'' \<in> set (displayValue s) then s
        else s\<lparr>displayValue := displayValue s @ ''.''\<rparr>)) \<and>
   inputDecimal (inputDecimal s) = inputDecimal s \<and>
   count_list (formatResult v) (CHR ''.'') \<le> 1"
  using clicks_points [of bs] inputDecimal_appends [of s] inputDecimal_idem [of s]
    formatResult_points [of v]
  by simp

theorem display_one_decimal_point_witness:
  "displayValue (clicks [(''digit'', ''1''), (''decimal'', []), (''decimal'', []),
      (''digit'', ''5''), (''decimal'', [])] initial) = ''1.5'' \<and>
   count_list (displayValue (clicks [(''digit'', ''1''), (''decimal'', []), (''decimal'', []),
      (''digit'', ''5''), (''decimal'', [])] initial)) (CHR ''.'') \<le> 1 \<and>
   inputDecimal (initial\<lparr>displayValue := ''1''\<rparr>) = initial\<lparr>displayValue := ''1.''\<rparr> \<and>
   inputDecimal (initial\<lparr>displayValue := ''1.''\<rparr>) = initial\<lparr>displayValue := ''1.''\<rparr>"
proof -
  let ?bs = "[(''digit'', ''1''), (''decimal'', []), (''decimal'', []), (''digit'', ''5''),
    (''decimal'', [])]"
  have "set ?bs \<subseteq> set BUTTON_LAYOUT"
    by (simp add: BUTTON_LAYOUT_def)
  with display_one_decimal_point [of ?bs]
  have c: "count_list (displayValue (clicks ?bs initial)) (CHR ''.'') \<le> 1"
    by blast
  have d: "displayValue (clicks ?bs initial) = ''1.5''"
    by (simp add: clicks_Nil clicks_Cons buttons initial_def DEFAULT_DISPLAY_def inputDigit_def
        inputDecimal_def)
  have "\<not> hasError (initial\<lparr>displayValue := ''1''\<rparr>) \<and>
      \<not> awaitingNextValue (initial\<lparr>displayValue := ''1''\<rparr>)"
    by (simp add: initial_def)
  with display_one_decimal_point [of _ "initial\<lparr>displayValue := ''1''\<rparr>"]
  have e: "inputDecimal (initial\<lparr>displayValue := ''1''\<rparr>) = initial\<lparr>displayValue := ''1.''\<rparr>"
    by simp
  have "\<not> hasError (initial\<lparr>displayValue := ''1.''\<rparr>) \<and>
      \<not> awaitingNextValue (initial\<lparr>displayValue := ''1.''\<rparr>)"
    by (simp add: initial_def)
  with display_one_decimal_point [of _ "initial\<lparr>displayValue := ''1.''\<rparr>"]
  have f: "inputDecimal (initial\<lparr>displayValue := ''1.''\<rparr>) = initial\<lparr>displayValue := ''1.''\<rparr>"
    by simp
  from c d e f show ?thesis
    by blast
qed

section \<open>Logarithms and rounding\<close>

lemma pow_powi: "pow b k = b powi k"
  by (simp add: pow_def power_int_def inverse_eq_divide power_one_over)

lemma nat_pred: "1 \<le> (c::int) \<Longrightarrow> nat c = Suc (nat (c - 1))"
  by simp

lemma count_digits_bounds:
  "2 \<le> b \<Longrightarrow> 1 \<le> n \<Longrightarrow>
     1 \<le> count_digits b n \<and> b ^ nat (count_digits b n - 1) \<le> n \<and> n < b ^ nat (count_digits b n)"
proof (induction b n rule: count_digits.induct)
  case (1 b n)
  show ?case
  proof (cases "n < b")
    case True
    with 1(2,3) show ?thesis
      by (simp add: count_digits.simps [of b n])
  next
    case False
    let ?c = "count_digits b (n div b)"
    from 1(2) have bpos: "0 < b"
      by simp
    from False 1(2) have nb: "1 \<le> n div b"
      by (simp add: int_one_le_iff_zero_less pos_imp_zdiv_pos_iff)
    from False 1(2) have "\<not> (n < b \<or> b < 2)"
      by simp
    from 1(1) [OF this 1(2) nb]
    have c1: "1 \<le> ?c" and lo: "b ^ nat (?c - 1) \<le> n div b" and hi: "n div b < b ^ nat ?c"
      by simp_all
    from False 1(2) have cd: "count_digits b n = 1 + ?c"
      by (simp add: count_digits.simps [of b n])
    have le: "b * (n div b) \<le> n"
      using mult_div_mod_eq [of b n] pos_mod_sign [OF bpos, of n] by linarith
    have "b * b ^ nat (?c - 1) \<le> b * (n div b)"
      using lo bpos by simp
    moreover from c1 have "b * b ^ nat (?c - 1) = b ^ nat ?c"
      by (simp add: nat_pred [of ?c])
    ultimately have l: "b ^ nat ?c \<le> n"
      using le by simp
    have lt: "n < b * (n div b) + b"
      using mult_div_mod_eq [of b n] pos_mod_bound [OF bpos, of n] by linarith
    from hi have "n div b + 1 \<le> b ^ nat ?c"
      by simp
    then have "b * (n div b + 1) \<le> b * b ^ nat ?c"
      using bpos by (simp only: mult_le_cancel_left_pos)
    with lt have h: "n < b ^ Suc (nat ?c)"
      by (simp add: algebra_simps)
    from c1 have "nat (1 + ?c) = Suc (nat ?c)" "nat (1 + ?c - 1) = nat ?c"
      by simp_all
    with cd c1 l h show ?thesis
      by simp
  qed
qed

lemma floor_log_bounds:
  assumes b: "2 \<le> b" and q: "0 < q"
  shows "of_int b powi floor_log b q \<le> q \<and> q < of_int b powi (floor_log b q + 1)"
proof (cases "1 \<le> q")
  case True
  let ?c = "count_digits b \<lfloor>q\<rfloor>"
  from True have f1: "1 \<le> \<lfloor>q\<rfloor>"
    by simp
  from count_digits_bounds [OF b f1]
  have c1: "1 \<le> ?c" and lo: "b ^ nat (?c - 1) \<le> \<lfloor>q\<rfloor>" and hi: "\<lfloor>q\<rfloor> < b ^ nat ?c"
    by simp_all
  from True have fl: "floor_log b q = ?c - 1"
    by (simp add: floor_log_def)
  from lo have "(of_int (b ^ nat (?c - 1)) :: rat) \<le> of_int \<lfloor>q\<rfloor>"
    by (simp only: of_int_le_iff)
  also have "\<dots> \<le> q"
    by simp
  finally have l: "(of_int b :: rat) ^ nat (?c - 1) \<le> q"
    by simp
  from hi have "\<lfloor>q\<rfloor> + 1 \<le> b ^ nat ?c"
    by simp
  then have "(of_int (\<lfloor>q\<rfloor> + 1) :: rat) \<le> of_int (b ^ nat ?c)"
    by (simp only: of_int_le_iff)
  moreover have "q < of_int (\<lfloor>q\<rfloor> + 1)"
    by linarith
  ultimately have h: "q < (of_int b :: rat) ^ nat ?c"
    by simp
  from c1 have "(of_int b :: rat) powi (?c - 1) = of_int b ^ nat (?c - 1)"
    and "(of_int b :: rat) powi ?c = of_int b ^ nat ?c"
    by (simp_all add: power_int_def)
  with fl l h show ?thesis
    by simp
next
  case False
  let ?y = "1 / q"
  let ?c = "count_digits b (\<lceil>?y\<rceil> - 1)"
  from False q have y1: "1 < ?y"
    by simp
  then have "1 < \<lceil>?y\<rceil>"
    by (simp add: less_ceiling_iff)
  then have f1: "1 \<le> \<lceil>?y\<rceil> - 1"
    by simp
  from count_digits_bounds [OF b f1]
  have c1: "1 \<le> ?c" and lo: "b ^ nat (?c - 1) \<le> \<lceil>?y\<rceil> - 1" and hi: "\<lceil>?y\<rceil> - 1 < b ^ nat ?c"
    by simp_all
  from False have fl: "floor_log b q = - ?c"
    by (simp add: floor_log_def)
  from b have bpos: "(0::rat) < of_int b"
    by simp
  from hi have "\<lceil>?y\<rceil> \<le> b ^ nat ?c"
    by simp
  then have "(of_int \<lceil>?y\<rceil> :: rat) \<le> of_int (b ^ nat ?c)"
    by (simp only: of_int_le_iff)
  with le_of_int_ceiling [of ?y] have "?y \<le> of_int (b ^ nat ?c)"
    by (rule order_trans)
  then have "?y \<le> (of_int b :: rat) ^ nat ?c"
    by simp
  with q bpos have l: "1 / (of_int b :: rat) ^ nat ?c \<le> q"
    by (simp add: field_simps)
  from lo have "(of_int (b ^ nat (?c - 1)) :: rat) \<le> of_int (\<lceil>?y\<rceil> - 1)"
    by (simp only: of_int_le_iff)
  moreover have "(of_int (\<lceil>?y\<rceil> - 1) :: rat) < ?y"
    by linarith
  ultimately have "(of_int b :: rat) ^ nat (?c - 1) < ?y"
    by simp
  with q bpos have h: "q < 1 / (of_int b :: rat) ^ nat (?c - 1)"
    by (simp add: field_simps)
  from c1 have "(of_int b :: rat) powi (- ?c) = 1 / of_int b ^ nat ?c"
    by (simp add: power_int_def inverse_eq_divide power_one_over)
  moreover from c1 have "(of_int b :: rat) powi (- ?c + 1) = 1 / of_int b ^ nat (?c - 1)"
    by (cases "?c = 1") (simp_all add: power_int_def inverse_eq_divide power_one_over nat_diff_distrib)
  ultimately show ?thesis
    using fl l h by simp
qed

lemma floor_log_unique:
  assumes b: "2 \<le> b" and q: "0 < q"
    and lo: "of_int b powi e \<le> q" and hi: "q < of_int b powi (e + 1)"
  shows "floor_log b q = e"
proof -
  from b have b1: "(1::rat) < of_int b"
    by simp
  let ?f = "floor_log b q"
  from floor_log_bounds [OF b q]
  have l: "of_int b powi ?f \<le> q" and h: "q < of_int b powi (?f + 1)"
    by simp_all
  have "\<not> e + 1 \<le> ?f"
  proof
    assume "e + 1 \<le> ?f"
    then have "(of_int b :: rat) powi (e + 1) \<le> of_int b powi ?f"
      using b1 by (intro power_int_increasing) simp_all
    with l hi show False
      by simp
  qed
  moreover have "\<not> ?f + 1 \<le> e"
  proof
    assume "?f + 1 \<le> e"
    then have "(of_int b :: rat) powi (?f + 1) \<le> of_int b powi e"
      using b1 by (intro power_int_increasing) simp_all
    with lo h show False
      by simp
  qed
  ultimately show ?thesis
    by simp
qed

lemma round_half_even_near:
  assumes "\<bar>q - of_int m\<bar> < 1 / 2"
  shows "round_half_even q = m"
proof -
  from assms have lo: "of_int m - 1 / 2 < q" and hi: "q < of_int m + 1 / 2"
    by linarith+
  show ?thesis
  proof (cases "of_int m \<le> q")
    case True
    with hi have "\<lfloor>q\<rfloor> = m"
      by (intro floor_unique) simp_all
    with hi show ?thesis
      by (simp add: round_half_even_def Let_def)
  next
    case False
    with lo have f: "\<lfloor>q\<rfloor> = m - 1"
      by (intro floor_unique) simp_all
    with lo show ?thesis
      by (simp add: round_half_even_def Let_def)
  qed
qed

lemma round_half_even_int: "round_half_even (of_int m) = m"
  by (rule round_half_even_near) simp

lemma round_half_even_error: "\<bar>q - of_int (round_half_even q)\<bar> \<le> 1 / 2"
proof -
  have "of_int \<lfloor>q\<rfloor> \<le> q" "q < of_int \<lfloor>q\<rfloor> + 1"
    by linarith+
  then show ?thesis
    by (auto simp add: round_half_even_def Let_def abs_le_iff)
qed

lemma powi_split: "(2::rat) powi a = 2 ^ n * 2 powi (a - int n)"
proof -
  have "a = int n + (a - int n)"
    by simp
  then have "(2::rat) powi a = 2 powi (int n + (a - int n))"
    by (rule arg_cong)
  also have "\<dots> = 2 powi int n * 2 powi (a - int n)"
    by (rule power_int_add) simp
  finally show ?thesis
    by simp
qed

lemma powi_split': "a - int n = b \<Longrightarrow> (2::rat) powi a = 2 ^ n * 2 powi b"
  using powi_split [of a n] by simp

lemma double_of_rat_pos:
  "0 < x \<Longrightarrow> double_of_rat x =
     (let e = binade x; m = round_half_even (x / 2 powi (e - 52))
      in if 1023 < e \<or> (e = 1023 \<and> m = 2 ^ 53) then PosInf
         else if m = 0 then Fin 0 else Fin (of_int m * 2 powi (e - 52)))"
proof -
  assume "0 < x"
  then have a: "\<bar>x\<bar> = x" and b: "(x < 0) = False"
    by simp_all
  show ?thesis
    unfolding double_of_rat_def binade_def Let_def pow_powi a b
    by (simp only: if_False mult_1_left)
qed

lemma double_structure:
  assumes x: "0 < x" and fx: "double_of_rat x = Fin x"
  shows "\<exists>m. x = of_int m * 2 powi (binade x - 52) \<and> 0 < m \<and> m < 2 ^ 53 \<and> binade x \<le> 1023 \<and>
    (- 1022 < binade x \<longrightarrow> 2 ^ 52 \<le> m)"
proof -
  define e where "e = binade x"
  define u where "u = (2::rat) powi (e - 52)"
  define m where "m = round_half_even (x / u)"
  have u: "0 < u"
    by (simp add: u_def)
  from fx x have nov: "\<not> (1023 < e \<or> (e = 1023 \<and> m = 2 ^ 53))" and xm: "x = of_int m * u"
    by (auto simp add: double_of_rat_pos Let_def e_def u_def m_def split: if_splits)
  from xm x u have mpos: "0 < m"
    by (simp add: zero_less_mult_iff)
  from floor_log_bounds [of 2 x] x
  have lo: "2 powi floor_log 2 x \<le> x" and hi: "x < 2 powi (floor_log 2 x + 1)"
    by simp_all
  have "floor_log 2 x + 1 \<le> e + 1"
    by (simp add: e_def binade_def)
  then have "(2::rat) powi (floor_log 2 x + 1) \<le> 2 powi (e + 1)"
    by (intro power_int_increasing) simp_all
  with hi have "x < 2 powi (e + 1)"
    by simp
  also have "(2::rat) powi (e + 1) = 2 ^ 53 * 2 powi (e - 52)"
    by (rule powi_split') simp
  finally have "of_int m * u < 2 ^ 53 * u"
    by (simp add: xm u_def)
  with u have "(of_int m :: rat) < 2 ^ 53"
    by simp
  then have m53: "m < 2 ^ 53"
    by (metis of_int_less_iff of_int_numeral of_int_power)
  have big: "2 ^ 52 \<le> m" if "- 1022 < e"
  proof -
    from that have "e = floor_log 2 x"
      by (simp add: e_def binade_def max_def split: if_splits)
    with lo have "2 powi e \<le> x"
      by simp
    also have "(2::rat) powi e = 2 ^ 52 * 2 powi (e - 52)"
      by (rule powi_split') simp
    finally have "2 ^ 52 * u \<le> of_int m * u"
      by (simp add: xm u_def)
    with u have "(2 ^ 52 :: rat) \<le> of_int m"
      by simp
    then show ?thesis
      by (metis of_int_le_iff of_int_numeral of_int_power)
  qed
  from xm mpos m53 nov big show ?thesis
    unfolding u_def e_def by (intro exI [of _ m]) auto
qed


lemma binade_ge: "- 1022 \<le> binade d"
  by (simp add: binade_def)

lemma double_of_rat_near:
  assumes x: "0 < x" and fx: "double_of_rat x = Fin x" and d: "0 < d"
    and near: "\<bar>d - x\<bar> * (2 * 10 ^ 16) \<le> x"
  shows "double_of_rat d = Fin x"
proof -
  define e where "e = binade x"
  define u where "u = (2::rat) powi (e - 52)"
  from double_structure [OF x fx] obtain m
    where xm: "x = of_int m * u" and mpos: "0 < m" and m53: "m < 2 ^ 53" and e1023: "e \<le> 1023"
      and big: "- 1022 < e \<longrightarrow> 2 ^ 52 \<le> m"
    unfolding e_def u_def by blast
  have u: "0 < u"
    by (simp add: u_def)
  define D where "D = d / u"
  from u have dD: "d = D * u"
    by (simp add: D_def)
  have "\<bar>d - x\<bar> = \<bar>D - of_int m\<bar> * u"
    using u by (simp add: dD xm abs_mult flip: left_diff_distrib)
  with near have "(\<bar>D - of_int m\<bar> * (2 * 10 ^ 16)) * u \<le> of_int m * u"
    by (simp add: xm mult.assoc mult.left_commute mult.commute)
  with u have nearD: "\<bar>D - of_int m\<bar> * (2 * 10 ^ 16) \<le> of_int m"
    by (simp only: mult_le_cancel_right_pos)
  from m53 have "(of_int m :: rat) < 2 ^ 53"
    by (metis of_int_less_iff of_int_numeral of_int_power)
  with nearD have half: "\<bar>D - of_int m\<bar> < 1 / 2"
    by simp
  from floor_log_bounds [of 2 d] d
  have lo: "2 powi floor_log 2 d \<le> d" and hi: "d < 2 powi (floor_log 2 d + 1)"
    by simp_all
  consider (same) "binade d = e" | (lower) "binade d < e" | (upper) "e < binade d"
    by linarith
  then show ?thesis
  proof cases
    case same
    from half have "round_half_even (d / 2 powi (binade d - 52)) = m"
      unfolding same u_def [symmetric] D_def [symmetric] by (rule round_half_even_near)
    with same e1023 m53 mpos show ?thesis
      by (simp add: double_of_rat_pos [OF d] Let_def xm u_def)
  next
    case lower
    with binade_ge [of d] have e1: "- 1022 < e"
      by simp
    with big have m52: "2 ^ 52 \<le> m"
      by simp
    from lower have "floor_log 2 d + 1 \<le> e"
      by (simp add: binade_def)
    then have "(2::rat) powi (floor_log 2 d + 1) \<le> 2 powi e"
      by (intro power_int_increasing) simp_all
    also have "(2::rat) powi e = 2 ^ 52 * u"
      unfolding u_def by (rule powi_split') simp
    finally have "D * u < 2 ^ 52 * u"
      using hi by (simp add: dD)
    with u have D52: "D < 2 ^ 52"
      by (simp only: mult_less_cancel_right_pos)
    from m52 have "(2 ^ 52 :: rat) \<le> of_int m"
      by (metis of_int_le_iff of_int_numeral of_int_power)
    with D52 half have "(of_int m :: rat) < 2 ^ 52 + 1"
      by linarith
    then have "(of_int m :: rat) < of_int (2 ^ 52 + 1)"
      by simp
    then have "m < 2 ^ 52 + 1"
      by (simp only: of_int_less_iff)
    with m52 have m: "m = 2 ^ 52"
      by simp
    from nearD have "\<bar>D - 4503599627370496\<bar> * 20000000000000000 \<le> 4503599627370496"
      by (simp add: m)
    then have n2: "\<bar>D - 4503599627370496\<bar> \<le> 4503599627370496 / 20000000000000000"
      by (simp only: pos_le_divide_eq zero_less_numeral)
    then have "2251799813685248 \<le> D"
      by linarith
    then have Dlo: "2 ^ 51 \<le> D"
      by simp
    from n2 have "\<bar>2 * D - 9007199254740992\<bar> < 1 / 2"
      by linarith
    then have Dnear: "\<bar>2 * D - 2 ^ 53\<bar> < 1 / 2"
      by simp
    have p51: "(2::rat) powi (e - 1) = 2 ^ 51 * u"
      unfolding u_def by (rule powi_split') simp
    from Dlo u have "2 ^ 51 * u \<le> D * u"
      by (simp only: mult_le_cancel_right_pos)
    with p51 have "2 powi (e - 1) \<le> d"
      by (simp add: dD)
    moreover from D52 u have "D * u < 2 ^ 52 * u"
      by (simp only: mult_less_cancel_right_pos)
    then have "d < 2 powi (e - 1 + 1)"
      using \<open>(2::rat) powi e = 2 ^ 52 * u\<close> by (simp add: dD)
    ultimately have "floor_log 2 d = e - 1"
      using d by (intro floor_log_unique) simp_all
    with e1 have bd: "binade d = e - 1"
      by (simp add: binade_def)
    have "u = 2 ^ 1 * 2 powi (binade d - 52)"
      unfolding u_def by (rule powi_split') (simp add: bd)
    then have ud: "2 powi (binade d - 52) = u / 2"
      by simp
    from Dnear have "\<bar>2 * D - of_int (2 ^ 53)\<bar> < 1 / 2"
      by simp
    then have "round_half_even (2 * D) = 2 ^ 53"
      by (rule round_half_even_near)
    moreover have "d / (u / 2) = 2 * D"
      using u by (simp add: D_def)
    ultimately have rm: "round_half_even (d / (u / 2)) = 2 ^ 53"
      by simp
    have c: "\<not> (1023 < binade d \<or> (binade d = 1023 \<and> (2 ^ 53 :: int) = 2 ^ 53))"
      using bd e1023 by simp
    have "double_of_rat d = Fin (of_int (2 ^ 53) * (u / 2))"
      unfolding double_of_rat_pos [OF d] Let_def ud rm using c by simp
    also have "\<dots> = Fin x"
      by (simp add: xm m)
    finally show ?thesis .
  next
    case upper
    with binade_ge [of x] have "binade d = floor_log 2 d"
      by (simp add: binade_def e_def max_def split: if_splits)
    with upper have "e + 1 \<le> floor_log 2 d"
      by simp
    then have "(2::rat) powi (e + 1) \<le> 2 powi floor_log 2 d"
      by (intro power_int_increasing) simp_all
    moreover have "(2::rat) powi (e + 1) = 2 ^ 53 * u"
      unfolding u_def by (rule powi_split') simp
    ultimately have "2 ^ 53 * u \<le> D * u"
      using lo by (simp add: dD)
    with u have "2 ^ 53 \<le> D"
      by (simp only: mult_le_cancel_right_pos)
    moreover from m53 have "m + 1 \<le> 2 ^ 53"
      by simp
    then have "(of_int (m + 1) :: rat) \<le> of_int (2 ^ 53)"
      by (simp only: of_int_le_iff)
    ultimately have "of_int m + 1 \<le> D"
      by simp
    with half have False
      by linarith
    then show ?thesis ..
  qed
qed

section \<open>The digits of a double\<close>

lemma powi_split10: "(10::rat) powi a = 10 ^ n * 10 powi (a - int n)"
proof -
  have "a = int n + (a - int n)"
    by simp
  then have "(10::rat) powi a = 10 powi (int n + (a - int n))"
    by (rule arg_cong)
  also have "\<dots> = 10 powi int n * 10 powi (a - int n)"
    by (rule power_int_add) simp
  finally show ?thesis
    by simp
qed

lemma powi_split10': "a - int n = b \<Longrightarrow> (10::rat) powi a = 10 ^ n * 10 powi b"
  using powi_split10 [of a n] by simp

lemma decimal_window:
  assumes x: "0 < x" and k: "1 \<le> k"
  defines "n \<equiv> floor_log 10 x + 1"
  defines "w \<equiv> x / 10 powi (n - int k)"
  shows "10 ^ (k - 1) \<le> w" and "w < 10 ^ k"
proof -
  let ?P = "(10::rat) powi (n - int k)"
  have P: "0 < ?P"
    by simp
  from floor_log_bounds [of 10 x] x
  have lo: "10 powi (n - 1) \<le> x" and hi: "x < 10 powi n"
    by (simp_all add: n_def)
  have "(10::rat) powi (n - 1) = 10 ^ (k - 1) * ?P"
    using k by (intro powi_split10') (simp add: of_nat_diff)
  with lo have "10 ^ (k - 1) * ?P \<le> x"
    by simp
  with P show "10 ^ (k - 1) \<le> w"
    by (simp add: w_def pos_le_divide_eq)
  have "(10::rat) powi n = 10 ^ k * ?P"
    by (intro powi_split10') simp
  with hi have "x < 10 ^ k * ?P"
    by simp
  with P show "w < 10 ^ k"
    by (simp add: w_def pos_divide_less_eq)
qed

lemma decimal_value_normalise:
  "1 \<le> k \<Longrightarrow> decimal_value k (normalise k c) = decimal_value k c"
proof (cases "fst c = 10 ^ k")
  case True
  assume "1 \<le> k"
  have "(10::rat) powi (snd c + 1 - int k) = 10 ^ 1 * 10 powi (snd c - int k)"
    by (intro powi_split10') simp
  moreover from \<open>1 \<le> k\<close> have "(10::rat) ^ k = 10 ^ (k - 1) * 10"
    by (cases k) simp_all
  ultimately show ?thesis
    using True by (simp add: decimal_value_def normalise_def pow_powi)
next
  case False
  then show ?thesis
    by (simp add: normalise_def)
qed

lemma normalise_digits:
  assumes "1 \<le> k" "10 ^ (k - 1) \<le> fst c" "fst c \<le> 10 ^ k"
  shows "10 ^ (k - 1) \<le> fst (normalise k c) \<and> fst (normalise k c) < 10 ^ k"
proof (cases "fst c = 10 ^ k")
  case True
  from assms(1) have "(10::int) ^ (k - 1) < 10 ^ k"
    by (intro power_strict_increasing) simp_all
  with True show ?thesis
    by (simp add: normalise_def)
next
  case False
  with assms show ?thesis
    by (simp add: normalise_def)
qed

lemma pick_sound:
  assumes x: "0 < x" and k: "1 \<le> k" and p: "pick x k = Some c"
  shows "10 ^ (k - 1) \<le> fst c \<and> fst c < 10 ^ k \<and> double_of_rat (decimal_value k c) = Fin x"
proof -
  define n where "n = floor_log 10 x + 1"
  define w where "w = x / 10 powi (n - int k)"
  define lo where "lo = \<lfloor>w\<rfloor>"
  from decimal_window [OF x k] have wlo: "10 ^ (k - 1) \<le> w" and whi: "w < 10 ^ k"
    by (simp_all add: w_def n_def)
  from wlo have "of_int (10 ^ (k - 1)) \<le> w"
    by simp
  then have l1: "10 ^ (k - 1) \<le> lo"
    unfolding lo_def by (simp only: le_floor_iff)
  from whi have "w < of_int (10 ^ k)"
    by simp
  then have l2: "lo < 10 ^ k"
    unfolding lo_def by (simp only: floor_less_iff)
  from l1 l2 k have n1: "10 ^ (k - 1) \<le> fst (normalise k (lo, n)) \<and> fst (normalise k (lo, n)) < 10 ^ k"
    by (intro normalise_digits) simp_all
  from l1 l2 k have n2: "10 ^ (k - 1) \<le> fst (normalise k (lo + 1, n)) \<and> fst (normalise k (lo + 1, n)) < 10 ^ k"
    by (intro normalise_digits) simp_all
  from l2 have c1: "normalise k (lo, n) = (lo, n)"
    by (simp add: normalise_def)
  define ok1 where "ok1 \<longleftrightarrow> double_of_rat (decimal_value k (lo, n)) = Fin x"
  define ok2 where "ok2 \<longleftrightarrow> double_of_rat (decimal_value k (lo + 1, n)) = Fin x"
  define T where "T \<longleftrightarrow> x - decimal_value k (lo, n) < decimal_value k (lo + 1, n) - x \<or>
    (x - decimal_value k (lo, n) = decimal_value k (lo + 1, n) - x \<and> even lo)"
  have "pick x k =
     (if ok1 \<and> ok2 then Some (normalise k (if T then (lo, n) else (lo + 1, n)))
      else if ok1 then Some (lo, n)
      else if ok2 then Some (normalise k (lo + 1, n))
      else None)"
    by (simp add: pick_def Let_def n_def w_def lo_def ok1_def ok2_def T_def pow_powi)
  with p have "(c = normalise k (lo, n) \<and> ok1) \<or> (c = normalise k (lo + 1, n) \<and> ok2)"
    by (auto simp add: c1 split: if_splits)
  with n1 n2 k show ?thesis
    by (auto simp add: decimal_value_normalise ok1_def ok2_def)
qed

lemma shortest_sound:
  assumes x: "0 < x" and ks: "\<forall>k \<in> set ks. 1 \<le> k" and s: "shortest x ks = Some c"
  shows "\<exists>k. 1 \<le> k \<and> 10 ^ (k - 1) \<le> fst c \<and> fst c < 10 ^ k \<and> double_of_rat (decimal_value k c) = Fin x"
  using ks s
proof (induction ks)
  case Nil
  then show ?case by simp
next
  case (Cons k ks)
  show ?case
  proof (cases "pick x k")
    case None
    with Cons show ?thesis
      by simp
  next
    case (Some c')
    with Cons.prems have "pick x k = Some c" and "1 \<le> k"
      by simp_all
    from pick_sound [OF x this(2) this(1)] \<open>1 \<le> k\<close> show ?thesis
      by blast
  qed
qed

lemma nearest17_sound:
  assumes x: "0 < x" and fx: "double_of_rat x = Fin x"
  shows "10 ^ 16 \<le> fst (nearest17 x) \<and> fst (nearest17 x) < 10 ^ 17 \<and>
    double_of_rat (decimal_value 17 (nearest17 x)) = Fin x"
proof -
  define n where "n = floor_log 10 x + 1"
  define P where "P = (10::rat) powi (n - 17)"
  define w where "w = x / P"
  define s where "s = round_half_even w"
  have P: "0 < P"
    by (simp add: P_def)
  from decimal_window [OF x, of 17] have wlo: "10 ^ 16 \<le> w" and whi: "w < 10 ^ 17"
    by (simp_all add: w_def n_def P_def)
  from round_half_even_error [of w] have err: "\<bar>w - of_int s\<bar> \<le> 1 / 2"
    by (simp add: s_def)
  with wlo have "(10 ^ 16 :: rat) - 1 / 2 \<le> of_int s"
    by linarith
  then have "(of_int (10 ^ 16 - 1) :: rat) < of_int s"
    by simp
  then have s1: "10 ^ 16 \<le> s"
    by simp
  from err whi have "(of_int s :: rat) < 10 ^ 17 + 1"
    by linarith
  then have "(of_int s :: rat) < of_int (10 ^ 17 + 1)"
    by simp
  then have s2: "s \<le> 10 ^ 17"
    by simp
  have n17: "nearest17 x = normalise 17 (s, n)"
    by (simp add: nearest17_def Let_def n_def s_def w_def P_def pow_powi)
  from s1 s2 have dg: "10 ^ (17 - 1) \<le> fst (normalise 17 (s, n)) \<and> fst (normalise 17 (s, n)) < 10 ^ 17"
    by (intro normalise_digits) simp_all
  define d where "d = of_int s * P"
  from s1 P have d: "0 < d"
    by (simp add: d_def zero_less_mult_iff)
  from P have xw: "x = w * P"
    by (simp add: w_def)
  have "\<bar>d - x\<bar> = \<bar>w - of_int s\<bar> * P"
    using P by (simp add: d_def xw abs_mult abs_minus_commute flip: left_diff_distrib)
  with err P have "\<bar>d - x\<bar> \<le> 1 / 2 * P"
    by (simp only: mult_le_cancel_right_pos)
  then have "\<bar>d - x\<bar> * (2 * 10 ^ 16) \<le> 10 ^ 16 * P"
    by simp
  also from wlo P have "10 ^ 16 * P \<le> w * P"
    by (simp only: mult_le_cancel_right_pos)
  finally have "\<bar>d - x\<bar> * (2 * 10 ^ 16) \<le> x"
    by (simp add: xw)
  from double_of_rat_near [OF x fx d this] have "double_of_rat (decimal_value 17 (s, n)) = Fin x"
    by (simp add: decimal_value_def d_def P_def pow_powi)
  with dg show ?thesis
    by (simp add: n17 decimal_value_normalise)
qed

section \<open>Reading digits back\<close>

lemma digit_char_props:
  assumes "0 \<le> d" "d < 10"
  shows "is_digit (digit_char d)" and "digit_val (digit_char d) = d"
proof -
  from assms have "d = 0 \<or> d = 1 \<or> d = 2 \<or> d = 3 \<or> d = 4 \<or> d = 5 \<or> d = 6 \<or> d = 7 \<or> d = 8 \<or> d = 9"
    by arith
  then show "is_digit (digit_char d)" and "digit_val (digit_char d) = d"
    by (auto simp add: digit_char_def is_digit_def digit_val_def)
qed

lemma digits_val_snoc: "digits_val (xs @ [c]) = 10 * digits_val xs + digit_val c"
  by (simp add: digits_val_def)

lemma digits_val_Nil: "digits_val [] = 0"
  by (simp add: digits_val_def)

lemma digits_val_append: "digits_val (xs @ ys) = digits_val xs * 10 ^ length ys + digits_val ys"
proof (induction ys rule: rev_induct)
  case Nil
  show ?case by (simp add: digits_val_Nil)
next
  case (snoc y ys)
  have "digits_val (xs @ ys @ [y]) = 10 * digits_val (xs @ ys) + digit_val y"
    using digits_val_snoc [of "xs @ ys" y] by simp
  with snoc show ?case
    by (simp add: digits_val_snoc algebra_simps)
qed

lemma digits_val_zeros: "digits_val (replicate n (CHR ''0'')) = 0"
  by (induction n) (simp_all add: digits_val_Nil digits_val_snoc digit_val_def
      flip: replicate_append_same)

lemma digits_of_props:
  "0 \<le> n \<Longrightarrow> (\<forall>c \<in> set (digits_of n). is_digit c) \<and> digits_val (digits_of n) = n \<and> digits_of n \<noteq> []"
proof (induction n rule: digits_of.induct)
  case (1 n)
  show ?case
  proof (cases "n < 10")
    case True
    with 1(2) digit_char_props [of n] show ?thesis
      by (simp add: digits_of.simps [of n] digits_val_def)
  next
    case False
    then have "0 \<le> n div 10"
      by simp
    with 1(1) False have ih: "(\<forall>c \<in> set (digits_of (n div 10)). is_digit c) \<and>
        digits_val (digits_of (n div 10)) = n div 10"
      by simp
    have "0 \<le> n mod 10" "n mod 10 < 10"
      by simp_all
    from digit_char_props [OF this] ih False show ?thesis
      by (simp add: digits_of.simps [of n] digits_val_snoc)
  qed
qed

lemma length_digits_of:
  "1 \<le> k \<Longrightarrow> 10 ^ (k - 1) \<le> n \<Longrightarrow> n < 10 ^ k \<Longrightarrow> length (digits_of n) = k"
proof (induction k arbitrary: n)
  case 0
  then show ?case by simp
next
  case (Suc k)
  show ?case
  proof (cases "k = 0")
    case True
    with Suc.prems show ?thesis
      by (simp add: digits_of.simps [of n])
  next
    case False
    then have k: "1 \<le> k"
      by simp
    then have "(10::int) ^ 1 \<le> 10 ^ k"
      by (intro power_increasing) simp_all
    with Suc.prems have n10: "\<not> n < 10"
      by simp
    from k have "(10::int) ^ k = 10 * 10 ^ (k - 1)"
      by (cases k) simp_all
    with Suc.prems have "10 ^ (k - 1) \<le> n div 10" "n div 10 < 10 ^ k"
      by simp_all
    from Suc.IH [OF k this] n10 show ?thesis
      by (simp add: digits_of.simps [of n])
  qed
qed

lemma not_digit [simp]:
  "\<not> is_digit (CHR ''.'')" "\<not> is_digit (CHR ''e'')" "\<not> is_digit (CHR ''+'')"
  "\<not> is_digit (CHR ''-'')" "\<not> is_digit (CHR ''I'')" "is_digit (CHR ''0'')"
  by (simp_all add: is_digit_def)

lemma digit_not_space: "is_digit c \<Longrightarrow> \<not> is_space c \<and> c \<noteq> CHR ''-'' \<and> c \<noteq> CHR ''+'' \<and> c \<noteq> CHR ''I''"
  by (auto simp add: is_digit_def is_space_def)

lemma takeWhile_digits: "\<forall>c \<in> set ds. is_digit c \<Longrightarrow> takeWhile is_digit ds = ds"
  by (simp add: takeWhile_eq_all_conv)

lemma dropWhile_digits: "\<forall>c \<in> set ds. is_digit c \<Longrightarrow> dropWhile is_digit ds = []"
  by simp

lemma takeWhile_digits_then:
  "\<forall>c \<in> set ds. is_digit c \<Longrightarrow> \<not> is_digit c \<Longrightarrow> takeWhile is_digit (ds @ c # r) = ds"
  by (simp add: takeWhile_append2)

lemma dropWhile_digits_then:
  "\<forall>c \<in> set ds. is_digit c \<Longrightarrow> \<not> is_digit c \<Longrightarrow> dropWhile is_digit (ds @ c # r) = c # r"
  by (simp add: dropWhile_append2)

lemma exponent_part_Nil: "exponent_part [] = 0"
  by (simp add: exponent_part_def)

lemma exponent_part_string: "exponent_part (CHR ''e'' # exponent_string e) = e"
proof (cases "e < 0")
  case True
  from digits_of_props [of "- e"] True
  have "\<forall>c \<in> set (digits_of (- e)). is_digit c" and "digits_val (digits_of (- e)) = - e"
    by simp_all
  with True show ?thesis
    by (simp add: exponent_part_def exponent_string_def takeWhile_digits)
next
  case False
  from digits_of_props [of e] False
  have "\<forall>c \<in> set (digits_of e). is_digit c" and "digits_val (digits_of e) = e"
    by simp_all
  with False show ?thesis
    by (simp add: exponent_part_def exponent_string_def takeWhile_digits)
qed

lemma tails_props:
  assumes "t \<in> tails e"
  shows "exponent_part t = e" and "takeWhile is_digit t = []" and "dropWhile is_digit t = t"
    and "\<not> (t \<noteq> [] \<and> hd t = CHR ''.'')"
  using assms by (auto simp add: tails_def exponent_part_Nil exponent_part_string split: if_splits)

lemma takeWhile_digits_tail:
  assumes "\<forall>c \<in> set ds. is_digit c" "t \<in> tails e"
  shows "takeWhile is_digit (ds @ t) = ds" and "dropWhile is_digit (ds @ t) = t"
  using assms
  by (auto simp add: tails_def takeWhile_digits_then dropWhile_digits_then takeWhile_digits
      split: if_splits)

lemma literal_integer:
  assumes ip: "\<forall>c \<in> set ip. is_digit c" "ip \<noteq> []" and t: "t \<in> tails e"
  shows "unsigned_literal (ip @ t) = Some (of_int (digits_val ip) * 10 powi e)"
  using ip tails_props [OF t] takeWhile_digits_tail [OF ip(1) t]
  by (auto simp add: unsigned_literal_def Let_def pow_powi)

lemma literal_fraction:
  assumes ip: "\<forall>c \<in> set ip. is_digit c" and fp: "\<forall>c \<in> set fp. is_digit c"
    and ne: "ip \<noteq> [] \<or> fp \<noteq> []" and t: "t \<in> tails e"
  shows "unsigned_literal (ip @ CHR ''.'' # fp @ t) =
    Some (of_int (digits_val (ip @ fp)) * 10 powi (e - int (length fp)))"
  using ip ne tails_props [OF t] takeWhile_digits_tail [OF fp t]
  by (simp add: unsigned_literal_def Let_def pow_powi takeWhile_digits_then dropWhile_digits_then)

lemma tails_Nil: "[] \<in> tails 0"
  by (simp add: tails_def)

lemma tails_exponent: "CHR ''e'' # exponent_string e \<in> tails e"
  by (simp add: tails_def)

lemma digits_val_zero_Cons: "digits_val (CHR ''0'' # xs) = digits_val xs"
proof -
  have "digits_val ''0'' = 0"
    by (simp add: digits_val_def digit_val_def)
  with digits_val_append [of "''0''" xs] show ?thesis
    by simp
qed

lemma layout_literal:
  assumes k: "1 \<le> k" and lo: "10 ^ (k - 1) \<le> s" and hi: "s < 10 ^ k"
  shows "unsigned_literal (layout (s, n)) = Some (of_int s * 10 powi (n - int k)) \<and>
    layout (s, n) \<noteq> [] \<and> is_digit (hd (layout (s, n)))"
proof -
  define ds where "ds = digits_of s"
  from lo have s0: "0 \<le> s"
    by (rule order_trans [rotated]) simp
  from digits_of_props [OF s0]
  have dig: "\<forall>c \<in> set ds. is_digit c" and val: "digits_val ds = s" and ne: "ds \<noteq> []"
    by (simp_all add: ds_def)
  from length_digits_of [OF k lo hi] have len: "length ds = k"
    by (simp add: ds_def)
  from ne dig have hd: "is_digit (hd ds)"
    by (cases ds) simp_all
  consider (int) "int k \<le> n" "n \<le> 21"
    | (frac) "0 < n" "n < int k" "n \<le> 21"
    | (small) "- 6 < n" "n \<le> 0"
    | (exp1) "n \<le> - 6 \<or> 21 < n" "k = 1"
    | (exp) "n \<le> - 6 \<or> 21 < n" "k \<noteq> 1"
    using k by linarith
  then show ?thesis
  proof cases
    case int
    let ?ip = "ds @ replicate (nat (n - int k)) (CHR ''0'')"
    from int have l: "layout (s, n) = ?ip"
      by (simp add: layout_def Let_def ds_def [symmetric] len)
    from dig have "\<forall>c \<in> set ?ip. is_digit c"
      by auto
    moreover from ne have "?ip \<noteq> []"
      by simp
    ultimately have "unsigned_literal (?ip @ []) = Some (of_int (digits_val ?ip) * 10 powi 0)"
      using tails_Nil by (rule literal_integer)
    moreover have "digits_val ?ip = s * 10 ^ nat (n - int k)"
      by (simp add: digits_val_append digits_val_zeros val)
    moreover from int have "(10::rat) powi (n - int k) = 10 ^ nat (n - int k)"
      by (simp add: power_int_def)
    ultimately have "unsigned_literal ?ip = Some (of_int s * 10 powi (n - int k))"
      by simp
    with l ne hd show ?thesis
      by simp
  next
    case frac
    let ?ip = "take (nat n) ds" and ?fp = "drop (nat n) ds"
    from frac have l: "layout (s, n) = ?ip @ CHR ''.'' # ?fp @ []"
      by (simp add: layout_def Let_def ds_def [symmetric] len)
    from dig have d1: "\<forall>c \<in> set ?ip. is_digit c" and d2: "\<forall>c \<in> set ?fp. is_digit c"
      by (auto dest: in_set_takeD in_set_dropD)
    from frac ne have n1: "?ip \<noteq> []"
      by simp
    then have "?ip \<noteq> [] \<or> ?fp \<noteq> []"
      by simp
    from literal_fraction [OF d1 d2 this tails_Nil]
    have "unsigned_literal (?ip @ CHR ''.'' # ?fp @ []) =
        Some (of_int (digits_val (?ip @ ?fp)) * 10 powi (0 - int (length ?fp)))" .
    moreover from frac have "0 - int (length ?fp) = n - int k"
      by (simp add: len)
    ultimately have "unsigned_literal (layout (s, n)) = Some (of_int s * 10 powi (n - int k))"
      by (simp only: l append_take_drop_id val)
    moreover from n1 frac have "hd (layout (s, n)) = hd ds"
      by (simp add: l hd_append)
    ultimately show ?thesis
      using hd l by simp
  next
    case small
    let ?fp = "replicate (nat (- n)) (CHR ''0'') @ ds"
    from small k have l: "layout (s, n) = ''0'' @ CHR ''.'' # ?fp @ []"
      by (simp add: layout_def Let_def ds_def [symmetric] len)
    have d1: "\<forall>c \<in> set ''0''. is_digit c"
      by simp
    from dig have d2: "\<forall>c \<in> set ?fp. is_digit c"
      by auto
    have "''0'' \<noteq> [] \<or> ?fp \<noteq> []"
      by simp
    from literal_fraction [OF d1 d2 this tails_Nil]
    have "unsigned_literal (''0'' @ CHR ''.'' # ?fp @ []) =
        Some (of_int (digits_val (''0'' @ ?fp)) * 10 powi (0 - int (length ?fp)))" .
    moreover from small have "0 - int (length ?fp) = n - int k"
      by (simp add: len)
    moreover have "digits_val (''0'' @ ?fp) = s"
      by (simp add: digits_val_zero_Cons digits_val_append digits_val_zeros val)
    ultimately have "unsigned_literal (layout (s, n)) = Some (of_int s * 10 powi (n - int k))"
      by (simp only: l)
    then show ?thesis
      by (simp add: l)
  next
    case exp1
    let ?t = "CHR ''e'' # exponent_string (n - 1)"
    from exp1 have l: "layout (s, n) = ds @ ?t"
      by (auto simp add: layout_def Let_def ds_def [symmetric] len)
    from literal_integer [OF dig ne tails_exponent]
    have "unsigned_literal (ds @ ?t) = Some (of_int (digits_val ds) * 10 powi (n - 1))" .
    with exp1 have "unsigned_literal (layout (s, n)) = Some (of_int s * 10 powi (n - int k))"
      by (simp add: l val)
    moreover from ne have "hd (layout (s, n)) = hd ds"
      by (simp add: l hd_append)
    ultimately show ?thesis
      using hd ne l by simp
  next
    case exp
    let ?ip = "take 1 ds" and ?fp = "drop 1 ds"
    let ?t = "CHR ''e'' # exponent_string (n - 1)"
    from exp k have l: "layout (s, n) = ?ip @ CHR ''.'' # ?fp @ ?t"
      by (auto simp add: layout_def Let_def ds_def [symmetric] len)
    from dig have d1: "\<forall>c \<in> set ?ip. is_digit c" and d2: "\<forall>c \<in> set ?fp. is_digit c"
      by (auto dest: in_set_takeD in_set_dropD)
    from ne have n1: "?ip \<noteq> []"
      by simp
    then have "?ip \<noteq> [] \<or> ?fp \<noteq> []"
      by simp
    from literal_fraction [OF d1 d2 this tails_exponent]
    have "unsigned_literal (?ip @ CHR ''.'' # ?fp @ ?t) =
        Some (of_int (digits_val (?ip @ ?fp)) * 10 powi (n - 1 - int (length ?fp)))" .
    moreover from k have "n - 1 - int (length ?fp) = n - int k"
      by (simp add: len)
    ultimately have "unsigned_literal (layout (s, n)) = Some (of_int s * 10 powi (n - int k))"
      by (simp only: l append_take_drop_id val)
    moreover from n1 have "hd (layout (s, n)) = hd ds"
      by (simp add: l hd_append)
    ultimately show ?thesis
      using hd l by simp
  qed
qed

lemma parseFloat_digit_start:
  assumes "str \<noteq> []" "is_digit (hd str)"
  shows "parseFloat str = (case unsigned_literal str of None \<Rightarrow> NaN | Some q \<Rightarrow> double_of_rat q)"
    and "parseFloat (CHR ''-'' # str) =
      js_neg (case unsigned_literal str of None \<Rightarrow> NaN | Some q \<Rightarrow> double_of_rat q)"
proof -
  from assms obtain c r where str: "str = c # r" and c: "is_digit c"
    by (cases str) simp_all
  from digit_not_space [OF c] have "take 8 str \<noteq> ''Infinity''"
    by (auto simp add: str)
  then have pu: "parse_unsigned str =
      (case unsigned_literal str of None \<Rightarrow> NaN | Some q \<Rightarrow> double_of_rat q)"
    by (simp add: parse_unsigned_def)
  from digit_not_space [OF c] pu
  show "parseFloat str = (case unsigned_literal str of None \<Rightarrow> NaN | Some q \<Rightarrow> double_of_rat q)"
    by (simp add: parseFloat_def str)
  have "\<not> is_space (CHR ''-'')"
    by (simp add: is_space_def)
  with pu show "parseFloat (CHR ''-'' # str) =
      js_neg (case unsigned_literal str of None \<Rightarrow> NaN | Some q \<Rightarrow> double_of_rat q)"
    by (simp add: parseFloat_def)
qed


lemma js_neg_js_neg: "js_neg (js_neg v) = v"
  by (cases v) simp_all

lemma double_of_rat_neg:
  assumes q: "q < 0"
  shows "double_of_rat q = js_neg (double_of_rat (- q))"
proof -
  define e where "e = binade (- q)"
  define u where "u = (2::rat) powi (e - 52)"
  define m where "m = round_half_even (- q / u)"
  define ov where "ov \<longleftrightarrow> 1023 < e \<or> (e = 1023 \<and> m = 2 ^ 53)"
  have u: "u \<noteq> 0"
    by (simp add: u_def)
  from q have "0 < - q"
    by simp
  from double_of_rat_pos [OF this]
  have p: "double_of_rat (- q) = (if ov then PosInf else if m = 0 then Fin 0 else Fin (of_int m * u))"
    unfolding Let_def e_def [symmetric] u_def [symmetric] m_def [symmetric] ov_def [symmetric] .
  from q have a: "\<bar>q\<bar> = - q" and b: "(q < 0) = True"
    by simp_all
  have "double_of_rat q = (if ov then NegInf else if m = 0 then NegZero else Fin (- 1 * of_int m * u))"
    unfolding double_of_rat_def Let_def a b pow_powi binade_def [symmetric]
      e_def [symmetric] u_def [symmetric] m_def [symmetric] ov_def [symmetric]
    by (simp only: if_True)
  with p u show ?thesis
    by simp
qed

lemma double_minus:
  assumes "q < 0" "double_of_rat q = Fin q"
  shows "double_of_rat (- q) = Fin (- q)"
proof -
  from assms double_of_rat_neg [of q] have "js_neg (double_of_rat (- q)) = Fin q"
    by simp
  then have "js_neg (js_neg (double_of_rat (- q))) = js_neg (Fin q)"
    by simp
  with assms(1) show ?thesis
    by (simp add: js_neg_js_neg)
qed

lemma parse_positive_string:
  assumes x: "0 < x" and fx: "double_of_rat x = Fin x"
  shows "parseFloat (positive_string x) = Fin x"
    and "parseFloat (CHR ''-'' # positive_string x) = Fin (- x)"
proof -
  define c where "c = (case shortest x [1 ..< 18] of Some c \<Rightarrow> c | None \<Rightarrow> nearest17 x)"
  have "\<exists>k. 1 \<le> k \<and> 10 ^ (k - 1) \<le> fst c \<and> fst c < 10 ^ k \<and>
      double_of_rat (decimal_value k c) = Fin x"
  proof (cases "shortest x [1 ..< 18]")
    case None
    with nearest17_sound [OF x fx] show ?thesis
      by (intro exI [of _ 17]) (simp add: c_def)
  next
    case (Some c')
    have "\<forall>k \<in> set [1 ..< 18]. 1 \<le> k"
      by simp
    from shortest_sound [OF x this Some] Some show ?thesis
      by (simp add: c_def)
  qed
  then obtain k where k: "1 \<le> k" and lo: "10 ^ (k - 1) \<le> fst c" and hi: "fst c < 10 ^ k"
    and v: "double_of_rat (decimal_value k c) = Fin x"
    by blast
  from layout_literal [OF k lo hi, of "snd c"]
  have lit: "unsigned_literal (layout c) = Some (decimal_value k c)"
    and ne: "layout c \<noteq> []" and dg: "is_digit (hd (layout c))"
    by (simp_all add: decimal_value_def pow_powi)
  have ps: "positive_string x = layout c"
    by (simp add: positive_string_def shortest_digits_def c_def)
  from parseFloat_digit_start [OF ne dg] lit v x
  show "parseFloat (positive_string x) = Fin x"
    and "parseFloat (CHR ''-'' # positive_string x) = Fin (- x)"
    by (simp_all add: ps)
qed

lemma parse_NaN: "parseFloat ''NaN'' = NaN"
  by code_simp

lemma parse_Infinity: "parseFloat ''Infinity'' = PosInf"
  by code_simp

lemma parse_minus_Infinity: "parseFloat ''-Infinity'' = NegInf"
  by code_simp

lemma parse_toString:
  assumes "is_double v"
  shows "parseFloat (toString v) = (if v = NegZero then Fin 0 else v)"
proof (cases v)
  case (Fin q)
  show ?thesis
  proof (cases "q = 0")
    case True
    with Fin show ?thesis
      by (simp add: parse_0)
  next
    case False
    show ?thesis
    proof (cases "q < 0")
      case True
      from assms Fin True have "double_of_rat (- q) = Fin (- q)"
        by (simp add: double_minus)
      with True parse_positive_string(2) [of "- q"] Fin show ?thesis
        by simp
    next
      case pos: False
      with False have "0 < q"
        by simp
      with assms parse_positive_string(1) [of q] Fin show ?thesis
        by simp
    qed
  qed
qed (simp_all add: parse_NaN parse_Infinity parse_minus_Infinity parse_0)

lemma toPrecision_zero: "toPrecision NegZero p = toPrecision (Fin 0) p"
  by simp

lemma formatResult_double:
  assumes "is_double v"
  shows "formatResult v =
    (let result = parseFloat (toPrecision v 12)
     in if isFinite result then toString result else ''0'')"
proof (cases "v = NegZero")
  case True
  then show ?thesis
    by (simp add: formatResult_def parse_0 DEFAULT_DISPLAY_def Let_def)
next
  case False
  with parse_toString [OF assms] show ?thesis
    by (simp add: formatResult_def DEFAULT_DISPLAY_def Let_def)
qed

section \<open>Rounding is monotone\<close>

lemma round_half_even_mono:
  assumes "p \<le> q"
  shows "round_half_even p \<le> round_half_even q"
proof (rule ccontr)
  assume "\<not> round_half_even p \<le> round_half_even q"
  then have "round_half_even q + 1 \<le> round_half_even p"
    by simp
  then have "(of_int (round_half_even q + 1) :: rat) \<le> of_int (round_half_even p)"
    by (simp only: of_int_le_iff)
  then have "(of_int (round_half_even q) :: rat) + 1 \<le> of_int (round_half_even p)"
    by simp
  with round_half_even_error [of p] round_half_even_error [of q] assms have "p = q"
    by linarith
  with \<open>\<not> round_half_even p \<le> round_half_even q\<close> show False
    by simp
qed

lemma floor_log_mono:
  assumes "0 < a" "a \<le> b"
  shows "floor_log 2 a \<le> floor_log 2 b"
proof (rule ccontr)
  assume "\<not> floor_log 2 a \<le> floor_log 2 b"
  then have "floor_log 2 b + 1 \<le> floor_log 2 a"
    by simp
  then have "(2::rat) powi (floor_log 2 b + 1) \<le> 2 powi floor_log 2 a"
    by (intro power_int_increasing) simp_all
  with floor_log_bounds [of 2 a] floor_log_bounds [of 2 b] assms show False
    by simp
qed

lemma binade_mono: "0 < a \<Longrightarrow> a \<le> b \<Longrightarrow> binade a \<le> binade b"
  using floor_log_mono [of a b] by (simp add: binade_def)

lemma mantissa_le:
  assumes a: "0 < a"
  shows "mantissa a \<le> 2 ^ 53"
proof -
  let ?u = "(2::rat) powi (binade a - 52)"
  have u: "0 < ?u"
    by simp
  from floor_log_bounds [of 2 a] a have "a < 2 powi (floor_log 2 a + 1)"
    by simp
  also have "(2::rat) powi (floor_log 2 a + 1) \<le> 2 powi (binade a + 1)"
    by (intro power_int_increasing) (simp_all add: binade_def)
  also have "(2::rat) powi (binade a + 1) = 2 ^ 53 * ?u"
    by (rule powi_split') simp
  finally have "a / ?u \<le> 2 ^ 53"
    using u by (simp add: pos_divide_le_eq)
  then have "a / ?u \<le> of_int (2 ^ 53)"
    by simp
  from round_half_even_mono [OF this] show ?thesis
    by (simp only: mantissa_def round_half_even_int)
qed

lemma mantissa_ge:
  assumes a: "0 < a" and n: "- 1022 < binade a"
  shows "2 ^ 52 \<le> mantissa a"
proof -
  let ?u = "(2::rat) powi (binade a - 52)"
  have u: "0 < ?u"
    by simp
  from n have "binade a = floor_log 2 a"
    by (simp add: binade_def max_def split: if_splits)
  with floor_log_bounds [of 2 a] a have "2 powi binade a \<le> a"
    by simp
  moreover have "(2::rat) powi binade a = 2 ^ 52 * ?u"
    by (rule powi_split') simp
  ultimately have "2 ^ 52 \<le> a / ?u"
    using u by (simp add: pos_le_divide_eq)
  then have "of_int (2 ^ 52) \<le> a / ?u"
    by simp
  from round_half_even_mono [OF this] show ?thesis
    by (simp only: mantissa_def round_half_even_int)
qed

lemma rounded_mono:
  assumes a: "0 < a" and ab: "a \<le> b"
  shows "rounded a \<le> rounded b"
proof (cases "binade a = binade b")
  case True
  let ?u = "(2::rat) powi (binade b - 52)"
  have u: "0 < ?u"
    by simp
  from ab u have "a / ?u \<le> b / ?u"
    by (simp add: divide_right_mono)
  from round_half_even_mono [OF this] have "mantissa a \<le> mantissa b"
    by (simp add: mantissa_def True)
  then have "(of_int (mantissa a) :: rat) \<le> of_int (mantissa b)"
    by (simp only: of_int_le_iff)
  with u show ?thesis
    unfolding rounded_def True by (simp only: mult_le_cancel_right_pos)
next
  case False
  with binade_mono [OF a ab] have lt: "binade a + 1 \<le> binade b"
    by simp
  from a ab have b: "0 < b"
    by simp
  from lt binade_ge [of a] have "- 1022 < binade b"
    by simp
  from mantissa_ge [OF b this] have "(of_int (2 ^ 52) :: rat) \<le> of_int (mantissa b)"
    by (simp only: of_int_le_iff)
  then have "2 ^ 52 * 2 powi (binade b - 52) \<le> rounded b"
    unfolding rounded_def by (simp only: mult_le_cancel_right_pos zero_less_power_int) simp
  moreover have "(2::rat) powi binade b = 2 ^ 52 * 2 powi (binade b - 52)"
    by (rule powi_split') simp
  ultimately have hi: "2 powi binade b \<le> rounded b"
    by simp
  from mantissa_le [OF a] have "(of_int (mantissa a) :: rat) \<le> of_int (2 ^ 53)"
    by (simp only: of_int_le_iff)
  then have "rounded a \<le> 2 ^ 53 * 2 powi (binade a - 52)"
    unfolding rounded_def by (simp only: mult_le_cancel_right_pos zero_less_power_int) simp
  moreover have "(2::rat) powi (binade a + 1) = 2 ^ 53 * 2 powi (binade a - 52)"
    by (rule powi_split') simp
  ultimately have "rounded a \<le> 2 powi (binade a + 1)"
    by simp
  also from lt have "(2::rat) powi (binade a + 1) \<le> 2 powi binade b"
    by (intro power_int_increasing) simp_all
  finally show ?thesis
    using hi by simp
qed

lemma overflow_iff:
  assumes a: "0 < a"
  shows "1023 < binade a \<or> (binade a = 1023 \<and> mantissa a = 2 ^ 53) \<longleftrightarrow> 2 powi 1024 \<le> rounded a"
proof
  assume o: "1023 < binade a \<or> (binade a = 1023 \<and> mantissa a = 2 ^ 53)"
  then have n: "- 1022 < binade a"
    by auto
  from mantissa_ge [OF a n] have "(of_int (2 ^ 52) :: rat) \<le> of_int (mantissa a)"
    by (simp only: of_int_le_iff)
  then have "2 ^ 52 * 2 powi (binade a - 52) \<le> rounded a"
    unfolding rounded_def by (simp only: mult_le_cancel_right_pos zero_less_power_int) simp
  moreover have "(2::rat) powi binade a = 2 ^ 52 * 2 powi (binade a - 52)"
    by (rule powi_split') simp
  ultimately have r: "2 powi binade a \<le> rounded a"
    by simp
  from o show "2 powi 1024 \<le> rounded a"
  proof
    assume "1023 < binade a"
    then have "(2::rat) powi 1024 \<le> 2 powi binade a"
      by (intro power_int_increasing) simp_all
    with r show ?thesis
      by simp
  next
    assume e: "binade a = 1023 \<and> mantissa a = 2 ^ 53"
    have "(2::rat) powi 1024 = 2 ^ 53 * 2 powi (1023 - 52)"
      by (rule powi_split') simp
    with e show ?thesis
      by (simp add: rounded_def)
  qed
next
  assume r: "2 powi 1024 \<le> rounded a"
  show "1023 < binade a \<or> (binade a = 1023 \<and> mantissa a = 2 ^ 53)"
  proof (rule ccontr)
    assume c: "\<not> (1023 < binade a \<or> (binade a = 1023 \<and> mantissa a = 2 ^ 53))"
    let ?u = "(2::rat) powi (binade a - 52)"
    have u: "0 < ?u"
      by simp
    have p: "(2::rat) powi (binade a + 1) = 2 ^ 53 * ?u"
      by (rule powi_split') simp
    show False
    proof (cases "binade a = 1023")
      case True
      with c mantissa_le [OF a] have "mantissa a + 1 \<le> 2 ^ 53"
        by simp
      then have "(of_int (mantissa a + 1) :: rat) \<le> of_int (2 ^ 53)"
        by (simp only: of_int_le_iff)
      then have "(of_int (mantissa a) :: rat) < 2 ^ 53"
        by simp
      with u have "rounded a < 2 ^ 53 * ?u"
        unfolding rounded_def by (simp only: mult_less_cancel_right_pos)
      with p True r show False
        by simp
    next
      case False
      with c have "binade a + 1 \<le> 1023"
        by simp
      then have "(2::rat) powi (binade a + 1) \<le> 2 powi 1023"
        by (intro power_int_increasing) simp_all
      moreover from mantissa_le [OF a] have "(of_int (mantissa a) :: rat) \<le> of_int (2 ^ 53)"
        by (simp only: of_int_le_iff)
      then have "rounded a \<le> 2 ^ 53 * ?u"
        unfolding rounded_def by (simp only: mult_le_cancel_right_pos zero_less_power_int) simp
      ultimately have "rounded a \<le> 2 powi 1023"
        using p by simp
      moreover have "(2::rat) powi 1023 < 2 powi 1024"
        by (intro power_int_strict_increasing) simp_all
      ultimately show False
        using r by simp
    qed
  qed
qed

lemma double_of_rat_rounded:
  assumes a: "0 < a"
  shows "double_of_rat a = (if 2 powi 1024 \<le> rounded a then PosInf else Fin (rounded a))"
proof -
  have "double_of_rat a =
      (if 1023 < binade a \<or> (binade a = 1023 \<and> mantissa a = 2 ^ 53) then PosInf
       else if mantissa a = 0 then Fin 0 else Fin (rounded a))"
    unfolding double_of_rat_pos [OF a] Let_def mantissa_def rounded_def ..
  also have "\<dots> = (if 2 powi 1024 \<le> rounded a then PosInf else Fin (rounded a))"
    unfolding overflow_iff [OF a] by (simp add: rounded_def)
  finally show ?thesis .
qed

lemma double_of_rat_between:
  assumes a: "0 < a" and ab: "a \<le> b" and bc: "b \<le> c"
    and ra: "double_of_rat a = Fin x" and rc: "double_of_rat c = Fin x"
  shows "double_of_rat b = Fin x"
proof -
  from a ab bc have b: "0 < b" and c: "0 < c"
    by simp_all
  from ra double_of_rat_rounded [OF a] have xa: "rounded a = x"
    by (simp split: if_splits)
  from rc double_of_rat_rounded [OF c] have xc: "rounded c = x" and nc: "\<not> 2 powi 1024 \<le> rounded c"
    by (simp_all split: if_splits)
  from rounded_mono [OF a ab] rounded_mono [OF b bc] xa xc have "rounded b = x"
    by simp
  with nc xc show ?thesis
    by (simp add: double_of_rat_rounded [OF b])
qed

section \<open>No shorter digits\<close>

lemma positive_string_digits: "positive_string x = layout (shortest_digits x)"
  by (simp add: positive_string_def)

lemma pick_None:
  assumes "pick x k = None"
  shows "double_of_rat (of_int \<lfloor>x / 10 powi (floor_log 10 x + 1 - int k)\<rfloor> *
      10 powi (floor_log 10 x + 1 - int k)) \<noteq> Fin x"
    and "double_of_rat (of_int (\<lfloor>x / 10 powi (floor_log 10 x + 1 - int k)\<rfloor> + 1) *
      10 powi (floor_log 10 x + 1 - int k)) \<noteq> Fin x"
proof -
  define n where "n = floor_log 10 x + 1"
  define lo where "lo = \<lfloor>x / 10 powi (n - int k)\<rfloor>"
  define ok1 where "ok1 \<longleftrightarrow> double_of_rat (decimal_value k (lo, n)) = Fin x"
  define ok2 where "ok2 \<longleftrightarrow> double_of_rat (decimal_value k (lo + 1, n)) = Fin x"
  define T where "T \<longleftrightarrow> x - decimal_value k (lo, n) < decimal_value k (lo + 1, n) - x \<or>
    (x - decimal_value k (lo, n) = decimal_value k (lo + 1, n) - x \<and> even lo)"
  have "pick x k =
     (if ok1 \<and> ok2 then Some (normalise k (if T then (lo, n) else (lo + 1, n)))
      else if ok1 then Some (lo, n)
      else if ok2 then Some (normalise k (lo + 1, n))
      else None)"
    by (simp add: pick_def Let_def n_def lo_def ok1_def ok2_def T_def pow_powi)
  with assms have "\<not> ok1" and "\<not> ok2"
    by (auto split: if_splits)
  then show "double_of_rat (of_int \<lfloor>x / 10 powi (floor_log 10 x + 1 - int k)\<rfloor> *
      10 powi (floor_log 10 x + 1 - int k)) \<noteq> Fin x"
    and "double_of_rat (of_int (\<lfloor>x / 10 powi (floor_log 10 x + 1 - int k)\<rfloor> + 1) *
      10 powi (floor_log 10 x + 1 - int k)) \<noteq> Fin x"
    by (simp_all add: ok1_def ok2_def decimal_value_def pow_powi lo_def n_def)
qed

lemma pick_None_complete:
  assumes x: "0 < x" and fx: "double_of_rat x = Fin x" and k: "1 \<le> k"
    and none: "pick x k = None" and lo: "10 ^ (k - 1) \<le> s" and hi: "s < 10 ^ k"
  shows "double_of_rat (of_int s * 10 powi (n' - int k)) \<noteq> Fin x"
proof
  define n where "n = floor_log 10 x + 1"
  define u where "u = (10::rat) powi (n - int k)"
  define w where "w = x / u"
  define l where "l = \<lfloor>w\<rfloor>"
  define d where "d = of_int s * (10::rat) powi (n' - int k)"
  assume "double_of_rat (of_int s * 10 powi (n' - int k)) = Fin x"
  then have rd: "double_of_rat d = Fin x"
    by (simp add: d_def)
  have u: "0 < u"
    by (simp add: u_def)
  from decimal_window [OF x k] have wlo: "10 ^ (k - 1) \<le> w" and whi: "w < 10 ^ k"
    by (simp_all add: w_def n_def u_def)
  from wlo have "of_int (10 ^ (k - 1)) \<le> w"
    by simp
  then have l1: "10 ^ (k - 1) \<le> l"
    unfolding l_def by (simp only: le_floor_iff)
  from whi have "w < of_int (10 ^ k)"
    by simp
  then have "l < 10 ^ k"
    unfolding l_def by (simp only: floor_less_iff)
  then have l2: "l + 1 \<le> 10 ^ k"
    by simp
  have "of_int l \<le> w" and "w < of_int (l + 1)"
    unfolding l_def by linarith+
  with u have c1x: "of_int l * u \<le> x" and c2x: "x < of_int (l + 1) * u"
    by (simp_all add: w_def pos_le_divide_eq pos_divide_less_eq)
  from pick_None [OF none] have n1: "double_of_rat (of_int l * u) \<noteq> Fin x"
    and n2: "double_of_rat (of_int (l + 1) * u) \<noteq> Fin x"
    by (simp_all add: l_def w_def u_def n_def)
  have p0: "(0::int) < 10 ^ (k - 1)"
    by simp
  with lo have s0: "0 < s"
    by linarith
  then have d0: "0 < d"
    by (simp add: d_def zero_less_mult_iff)
  from p0 l1 have l0: "0 < l"
    by linarith
  with u have c0: "0 < of_int l * u"
    by (simp add: zero_less_mult_iff)
  have pk: "(10::rat) powi n = 10 ^ k * u"
    unfolding u_def by (rule powi_split10') simp
  have pk1: "(10::rat) powi (n - 1) = 10 ^ (k - 1) * u"
    unfolding u_def using k by (intro powi_split10') (simp add: of_nat_diff)
  have dk: "(10::rat) powi n' = 10 ^ k * 10 powi (n' - int k)"
    by (rule powi_split10') simp
  have dk1: "(10::rat) powi (n' - 1) = 10 ^ (k - 1) * 10 powi (n' - int k)"
    using k by (intro powi_split10') (simp add: of_nat_diff)
  from lo have "(of_int (10 ^ (k - 1)) :: rat) \<le> of_int s"
    by (simp only: of_int_le_iff)
  then have "10 ^ (k - 1) * 10 powi (n' - int k) \<le> d"
    unfolding d_def by (simp only: mult_le_cancel_right_pos zero_less_power_int) simp
  with dk1 have dlo: "10 powi (n' - 1) \<le> d"
    by simp
  from hi have "(of_int s :: rat) < of_int (10 ^ k)"
    by (simp only: of_int_less_iff)
  then have "d < 10 ^ k * 10 powi (n' - int k)"
    unfolding d_def by (simp only: mult_less_cancel_right_pos zero_less_power_int) simp
  with dk have dhi: "d < 10 powi n'"
    by simp
  from l1 have "(of_int (10 ^ (k - 1)) :: rat) \<le> of_int l"
    by (simp only: of_int_le_iff)
  with u have "10 ^ (k - 1) * u \<le> of_int l * u"
    by (simp only: mult_le_cancel_right_pos) simp
  with pk1 have c1lo: "10 powi (n - 1) \<le> of_int l * u"
    by simp
  from l2 have "(of_int (l + 1) :: rat) \<le> of_int (10 ^ k)"
    by (simp only: of_int_le_iff)
  with u have "of_int (l + 1) * u \<le> 10 ^ k * u"
    by (simp only: mult_le_cancel_right_pos) simp
  with pk have c2hi: "of_int (l + 1) * u \<le> 10 powi n"
    by simp
  have "d \<le> of_int l * u \<or> of_int (l + 1) * u \<le> d"
  proof -
    consider (eq) "n' = n" | (less) "n' + 1 \<le> n" | (more) "n + 1 \<le> n'"
      by linarith
    then show ?thesis
    proof cases
      case eq
      have "s \<le> l \<or> l + 1 \<le> s"
        by linarith
      then show ?thesis
      proof
        assume "s \<le> l"
        then have "(of_int s :: rat) \<le> of_int l"
          by (simp only: of_int_le_iff)
        with u have "of_int s * u \<le> of_int l * u"
          by (simp only: mult_le_cancel_right_pos)
        then show ?thesis
          by (simp add: d_def u_def eq)
      next
        assume "l + 1 \<le> s"
        then have "(of_int (l + 1) :: rat) \<le> of_int s"
          by (simp only: of_int_le_iff)
        with u have "of_int (l + 1) * u \<le> of_int s * u"
          by (simp only: mult_le_cancel_right_pos)
        then show ?thesis
          by (simp add: d_def u_def eq)
      qed
    next
      case less
      then have "(10::rat) powi n' \<le> 10 powi (n - 1)"
        by (intro power_int_increasing) simp_all
      with dhi c1lo show ?thesis
        by simp
    next
      case more
      then have "(10::rat) powi n \<le> 10 powi (n' - 1)"
        by (intro power_int_increasing) simp_all
      with dlo c2hi show ?thesis
        by simp
    qed
  qed
  then show False
  proof
    assume "d \<le> of_int l * u"
    from double_of_rat_between [OF d0 this c1x rd fx] n1 show False
      by simp
  next
    assume "of_int (l + 1) * u \<le> d"
    with c2x have "x \<le> of_int (l + 1) * u"
      by simp
    from double_of_rat_between [OF x this \<open>of_int (l + 1) * u \<le> d\<close> fx rd] n2 show False
      by simp
  qed
qed

lemma shortest_upt_Some:
  "shortest x [i ..< j] = Some c \<Longrightarrow>
     \<exists>k. i \<le> k \<and> k < j \<and> pick x k = Some c \<and> (\<forall>k'. i \<le> k' \<and> k' < k \<longrightarrow> pick x k' = None)"
proof (induction "j - i" arbitrary: i)
  case 0
  then show ?case by simp
next
  case (Suc m)
  then have ij: "i < j"
    by simp
  then have u: "[i ..< j] = i # [Suc i ..< j]"
    by (rule upt_conv_Cons)
  show ?case
  proof (cases "pick x i")
    case None
    with Suc.prems u have "shortest x [Suc i ..< j] = Some c"
      by simp
    moreover from Suc.hyps(2) have "m = j - Suc i"
      by simp
    ultimately obtain k where k: "Suc i \<le> k" "k < j" "pick x k = Some c"
        "\<forall>k'. Suc i \<le> k' \<and> k' < k \<longrightarrow> pick x k' = None"
      using Suc.hyps(1) by blast
    have "\<forall>k'. i \<le> k' \<and> k' < k \<longrightarrow> pick x k' = None"
    proof (intro allI impI)
      fix k' assume "i \<le> k' \<and> k' < k"
      then have "k' = i \<or> (Suc i \<le> k' \<and> k' < k)"
        by auto
      with None k(4) show "pick x k' = None"
        by auto
    qed
    with k show ?thesis
      by (intro exI [of _ k]) simp
  next
    case (Some c')
    with Suc.prems u have "pick x i = Some c"
      by simp
    with ij show ?thesis
      by (intro exI [of _ i]) auto
  qed
qed

lemma shortest_upt_None:
  "shortest x [i ..< j] = None \<Longrightarrow> i \<le> k \<Longrightarrow> k < j \<Longrightarrow> pick x k = None"
proof (induction "j - i" arbitrary: i)
  case 0
  then show ?case by simp
next
  case (Suc m)
  then have "i < j"
    by simp
  then have u: "[i ..< j] = i # [Suc i ..< j]"
    by (rule upt_conv_Cons)
  from Suc.prems(1) u have p: "pick x i = None" and r: "shortest x [Suc i ..< j] = None"
    by (simp_all split: option.splits)
  show ?case
  proof (cases "k = i")
    case True
    with p show ?thesis by simp
  next
    case False
    with Suc.prems have "Suc i \<le> k"
      by simp
    moreover from Suc.hyps(2) have "m = j - Suc i"
      by simp
    ultimately show ?thesis
      using Suc.hyps(1) r Suc.prems(3) by blast
  qed
qed

lemma digits_of_positive:
  assumes "0 < (s::int)"
  shows "\<exists>k. 1 \<le> k \<and> 10 ^ (k - 1) \<le> s \<and> s < 10 ^ k"
proof -
  from assms have "1 \<le> s"
    by linarith
  from count_digits_bounds [of 10 s] this
  have c: "1 \<le> count_digits 10 s" "10 ^ nat (count_digits 10 s - 1) \<le> s"
      "s < 10 ^ nat (count_digits 10 s)"
    by simp_all
  then have "nat (count_digits 10 s) - 1 = nat (count_digits 10 s - 1)"
    by simp
  with c show ?thesis
    by (intro exI [of _ "nat (count_digits 10 s)"]) simp
qed

lemma shortest_digits_props:
  assumes x: "0 < x" and fx: "double_of_rat x = Fin x"
  defines "k \<equiv> length (digits_of (fst (shortest_digits x)))"
  shows "1 \<le> k" and "10 ^ (k - 1) \<le> fst (shortest_digits x)" and "fst (shortest_digits x) < 10 ^ k"
    and "double_of_rat (of_int (fst (shortest_digits x)) * 10 powi (snd (shortest_digits x) - int k)) = Fin x"
    and "0 < s' \<Longrightarrow> s' < 10 ^ (k - 1) \<Longrightarrow> double_of_rat (of_int s' * 10 powi j) \<noteq> Fin x"
proof -
  define c where "c = shortest_digits x"
  have "\<exists>k0. 1 \<le> k0 \<and> 10 ^ (k0 - 1) \<le> fst c \<and> fst c < 10 ^ k0 \<and>
      double_of_rat (decimal_value k0 c) = Fin x \<and> (\<forall>k'. 1 \<le> k' \<and> k' < k0 \<longrightarrow> pick x k' = None)"
  proof (cases "shortest x [1 ..< 18]")
    case None
    then have "\<forall>k'. 1 \<le> k' \<and> k' < 17 \<longrightarrow> pick x k' = None"
      using shortest_upt_None [of x 1 18] by simp
    with nearest17_sound [OF x fx] None show ?thesis
      by (intro exI [of _ 17]) (simp add: c_def shortest_digits_def)
  next
    case (Some c')
    then have cc: "c = c'"
      by (simp add: c_def shortest_digits_def)
    from shortest_upt_Some [OF Some] obtain k0 where k0: "1 \<le> k0" "pick x k0 = Some c'"
        "\<forall>k'. 1 \<le> k' \<and> k' < k0 \<longrightarrow> pick x k' = None"
      by blast
    from pick_sound [OF x k0(1) k0(2)] k0 show ?thesis
      by (intro exI [of _ k0]) (simp add: cc)
  qed
  then obtain k0 where k0: "1 \<le> k0" and lo: "10 ^ (k0 - 1) \<le> fst c" and hi: "fst c < 10 ^ k0"
    and v: "double_of_rat (decimal_value k0 c) = Fin x"
    and m: "\<forall>k'. 1 \<le> k' \<and> k' < k0 \<longrightarrow> pick x k' = None"
    by blast
  from length_digits_of [OF k0 lo hi] have kk: "k = k0"
    by (simp add: k_def c_def)
  from k0 lo hi v show "1 \<le> k" and "10 ^ (k - 1) \<le> fst (shortest_digits x)"
    and "fst (shortest_digits x) < 10 ^ k"
    and "double_of_rat (of_int (fst (shortest_digits x)) * 10 powi (snd (shortest_digits x) - int k)) = Fin x"
    by (simp_all add: kk c_def decimal_value_def pow_powi)
  show "double_of_rat (of_int s' * 10 powi j) \<noteq> Fin x" if s0: "0 < s'" and s1: "s' < 10 ^ (k - 1)"
  proof -
    from digits_of_positive [OF s0] obtain k' where k': "1 \<le> k'" "10 ^ (k' - 1) \<le> s'" "s' < 10 ^ k'"
      by blast
    from k'(2) s1 have "(10::int) ^ (k' - 1) < 10 ^ (k - 1)"
      by linarith
    then have "k' - 1 < k - 1"
      by (rule power_less_imp_less_exp [rotated]) simp
    with k'(1) have "k' < k0"
      by (simp add: kk)
    with m k'(1) have "pick x k' = None"
      by simp
    from pick_None_complete [OF x fx k'(1) this k'(2) k'(3), of "j + int k'"] show ?thesis
      by simp
  qed
qed

section \<open>Twelve significant digits\<close>

lemma precision_digits_props:
  assumes x: "0 < x" and p: "1 \<le> p"
  shows "10 ^ (p - 1) \<le> fst (precision_digits p x)"
    and "fst (precision_digits p x) < 10 ^ p"
    and "\<bar>x - of_int (fst (precision_digits p x)) * 10 powi (snd (precision_digits p x) - int p + 1)\<bar> * 2
      \<le> 10 powi (floor_log 10 x - int p + 1)"
proof -
  define e where "e = floor_log 10 x"
  define u where "u = (10::rat) powi (e - int p + 1)"
  define w where "w = x / u"
  define n where "n = round_half_up w"
  have u: "0 < u"
    by (simp add: u_def)
  have eq: "e - int p + 1 = floor_log 10 x + 1 - int p"
    by (simp add: e_def)
  from decimal_window [OF x p] have wlo: "10 ^ (p - 1) \<le> w" and whi: "w < 10 ^ p"
    by (simp_all add: w_def u_def eq)
  have fl: "of_int n \<le> w + 1 / 2" "w + 1 / 2 < of_int n + 1"
    unfolding n_def round_half_up_def by linarith+
  from wlo fl have "(of_int (10 ^ (p - 1)) :: rat) < of_int (n + 1)"
    by simp
  then have "10 ^ (p - 1) < n + 1"
    by (simp only: of_int_less_iff)
  then have n1: "10 ^ (p - 1) \<le> n"
    by simp
  from whi fl have "(of_int n :: rat) < of_int (10 ^ p + 1)"
    by simp
  then have "n < 10 ^ p + 1"
    by (simp only: of_int_less_iff)
  then have n2: "n \<le> 10 ^ p"
    by simp
  have pd: "precision_digits p x = (if n = 10 ^ p then (10 ^ (p - 1), e + 1) else (n, e))"
    by (simp add: precision_digits_def Let_def e_def n_def w_def u_def pow_powi)
  from p have pp: "(10::int) ^ (p - 1) < 10 ^ p"
    by (intro power_strict_increasing) simp_all
  from n1 n2 pp show "10 ^ (p - 1) \<le> fst (precision_digits p x)"
    and "fst (precision_digits p x) < 10 ^ p"
    by (simp_all add: pd)
  have "(10::rat) powi (e + 1 - int p + 1) = 10 ^ 1 * u"
    unfolding u_def by (rule powi_split10') simp
  moreover from p have "(10::rat) ^ p = 10 ^ (p - 1) * 10"
    by (cases p) simp_all
  ultimately have v: "of_int (fst (precision_digits p x)) *
      10 powi (snd (precision_digits p x) - int p + 1) = of_int n * u"
    by (simp add: pd u_def [symmetric])
  from u have xw: "x = w * u"
    by (simp add: w_def)
  from fl have "\<bar>w - of_int n\<bar> \<le> 1 / 2"
    by linarith
  then have "\<bar>w - of_int n\<bar> * 2 \<le> 1"
    by simp
  with u have "(\<bar>w - of_int n\<bar> * 2) * u \<le> 1 * u"
    by (simp only: mult_le_cancel_right_pos)
  moreover have "\<bar>x - of_int n * u\<bar> = \<bar>w - of_int n\<bar> * u"
    using u by (simp add: xw abs_mult flip: left_diff_distrib)
  ultimately show "\<bar>x - of_int (fst (precision_digits p x)) *
      10 powi (snd (precision_digits p x) - int p + 1)\<bar> * 2 \<le> 10 powi (floor_log 10 x - int p + 1)"
    unfolding v by (simp add: u_def e_def algebra_simps)
qed

lemma precision_literal:
  assumes lo: "10 ^ 11 \<le> s" and hi: "s < 10 ^ 12"
  shows "unsigned_literal (precision_layout 12 (digits_of s) e) = Some (of_int s * 10 powi (e - 11)) \<and>
    precision_layout 12 (digits_of s) e \<noteq> [] \<and> is_digit (hd (precision_layout 12 (digits_of s) e))"
proof -
  define ds where "ds = digits_of s"
  from lo have s0: "0 \<le> s"
    by simp
  from digits_of_props [OF s0]
  have dig: "\<forall>c \<in> set ds. is_digit c" and val: "digits_val ds = s" and ne: "ds \<noteq> []"
    by (simp_all add: ds_def)
  from length_digits_of [of 12 s] lo hi have len: "length ds = 12"
    by (simp add: ds_def)
  from ne dig have hd: "is_digit (hd ds)"
    by (cases ds) simp_all
  consider (exp) "e < - 6 \<or> 12 \<le> e" | (int) "e = 11" | (frac) "0 \<le> e" "e < 11" | (small) "- 6 \<le> e" "e < 0"
    by linarith
  then show ?thesis
  proof cases
    case exp
    let ?ip = "take 1 ds" and ?fp = "drop 1 ds"
    let ?t = "CHR ''e'' # exponent_string e"
    from exp have l: "precision_layout 12 ds e = ?ip @ CHR ''.'' # ?fp @ ?t"
      by (auto simp add: precision_layout_def)
    from dig have d1: "\<forall>c \<in> set ?ip. is_digit c" and d2: "\<forall>c \<in> set ?fp. is_digit c"
      by (auto dest: in_set_takeD in_set_dropD)
    from ne have n1: "?ip \<noteq> []"
      by simp
    then have "?ip \<noteq> [] \<or> ?fp \<noteq> []"
      by simp
    from literal_fraction [OF d1 d2 this tails_exponent]
    have "unsigned_literal (?ip @ CHR ''.'' # ?fp @ ?t) =
        Some (of_int (digits_val (?ip @ ?fp)) * 10 powi (e - int (length ?fp)))" .
    moreover have "e - int (length ?fp) = e - 11"
      by (simp add: len)
    ultimately have "unsigned_literal (precision_layout 12 ds e) = Some (of_int s * 10 powi (e - 11))"
      by (simp only: l append_take_drop_id val)
    moreover from n1 have "hd (precision_layout 12 ds e) = hd ds"
      by (simp add: l hd_append)
    ultimately show ?thesis
      using hd l by (simp add: ds_def)
  next
    case int
    then have l: "precision_layout 12 ds e = ds @ []"
      by (simp add: precision_layout_def)
    from literal_integer [OF dig ne tails_Nil]
    have "unsigned_literal (ds @ []) = Some (of_int (digits_val ds) * 10 powi 0)" .
    then have "unsigned_literal (precision_layout 12 ds e) = Some (of_int s * 10 powi 0)"
      by (simp only: l val)
    with int have "unsigned_literal (precision_layout 12 ds e) = Some (of_int s * 10 powi (e - 11))"
      by simp
    with hd ne l show ?thesis
      by (simp add: ds_def)
  next
    case frac
    let ?ip = "take (nat (e + 1)) ds" and ?fp = "drop (nat (e + 1)) ds"
    from frac have l: "precision_layout 12 ds e = ?ip @ CHR ''.'' # ?fp @ []"
      by (simp add: precision_layout_def)
    from dig have d1: "\<forall>c \<in> set ?ip. is_digit c" and d2: "\<forall>c \<in> set ?fp. is_digit c"
      by (auto dest: in_set_takeD in_set_dropD)
    from frac ne have n1: "?ip \<noteq> []"
      by simp
    then have "?ip \<noteq> [] \<or> ?fp \<noteq> []"
      by simp
    from literal_fraction [OF d1 d2 this tails_Nil]
    have "unsigned_literal (?ip @ CHR ''.'' # ?fp @ []) =
        Some (of_int (digits_val (?ip @ ?fp)) * 10 powi (0 - int (length ?fp)))" .
    moreover from frac have "0 - int (length ?fp) = e - 11"
      by (simp add: len)
    ultimately have "unsigned_literal (precision_layout 12 ds e) = Some (of_int s * 10 powi (e - 11))"
      by (simp only: l append_take_drop_id val)
    moreover from n1 have "hd (precision_layout 12 ds e) = hd ds"
      by (simp add: l hd_append)
    ultimately show ?thesis
      using hd l by (simp add: ds_def)
  next
    case small
    let ?fp = "replicate (nat (- (e + 1))) (CHR ''0'') @ ds"
    from small have l: "precision_layout 12 ds e = ''0'' @ CHR ''.'' # ?fp @ []"
      by (simp add: precision_layout_def)
    have d1: "\<forall>c \<in> set ''0''. is_digit c"
      by simp
    from dig have d2: "\<forall>c \<in> set ?fp. is_digit c"
      by auto
    have "''0'' \<noteq> [] \<or> ?fp \<noteq> []"
      by simp
    from literal_fraction [OF d1 d2 this tails_Nil]
    have "unsigned_literal (''0'' @ CHR ''.'' # ?fp @ []) =
        Some (of_int (digits_val (''0'' @ ?fp)) * 10 powi (0 - int (length ?fp)))" .
    moreover from small have "0 - int (length ?fp) = e - 11"
      by (simp add: len)
    moreover have "digits_val (''0'' @ ?fp) = s"
      by (simp add: digits_val_zero_Cons digits_val_append digits_val_zeros val)
    ultimately have "unsigned_literal (precision_layout 12 ds e) = Some (of_int s * 10 powi (e - 11))"
      by (simp only: l)
    then show ?thesis
      by (simp add: l ds_def [symmetric])
  qed
qed

lemma js_neg_double_of_rat: "0 < d \<Longrightarrow> js_neg (double_of_rat d) = double_of_rat (- d)"
  using double_of_rat_neg [of "- d"] by simp

lemma parse_toPrecision:
  assumes q: "q \<noteq> 0"
  shows "parseFloat (toPrecision (Fin q) 12) =
    double_of_rat (sgn q * of_int (fst (precision_digits 12 \<bar>q\<bar>)) *
      10 powi (snd (precision_digits 12 \<bar>q\<bar>) - 11))"
proof -
  define m where "m = fst (precision_digits 12 \<bar>q\<bar>)"
  define e where "e = snd (precision_digits 12 \<bar>q\<bar>)"
  define d where "d = of_int m * (10::rat) powi (e - 11)"
  from q have a: "0 < \<bar>q\<bar>"
    by simp
  from precision_digits_props(1,2) [OF a, of 12] have lo: "10 ^ 11 \<le> m" and hi: "m < 10 ^ 12"
    by (simp_all add: m_def)
  from lo have d0: "0 < d"
    by (simp add: d_def zero_less_mult_iff)
  from precision_literal [OF lo hi, of e]
  have lit: "unsigned_literal (positive_precision 12 \<bar>q\<bar>) = Some d"
    and ne: "positive_precision 12 \<bar>q\<bar> \<noteq> []" and dg: "is_digit (hd (positive_precision 12 \<bar>q\<bar>))"
    by (simp_all add: positive_precision_def Let_def m_def e_def d_def)
  show ?thesis
  proof (cases "q < 0")
    case True
    then have "toPrecision (Fin q) 12 = CHR ''-'' # positive_precision 12 \<bar>q\<bar>"
      by simp
    with parseFloat_digit_start(2) [OF ne dg] lit
    have "parseFloat (toPrecision (Fin q) 12) = js_neg (double_of_rat d)"
      by simp
    with True d0 show ?thesis
      by (simp add: js_neg_double_of_rat d_def m_def e_def)
  next
    case False
    with q have "toPrecision (Fin q) 12 = positive_precision 12 \<bar>q\<bar>"
      by simp
    with parseFloat_digit_start(1) [OF ne dg] lit
    have "parseFloat (toPrecision (Fin q) 12) = double_of_rat d"
      by simp
    with False q show ?thesis
      by (simp add: d_def m_def e_def)
  qed
qed

section \<open>Formatting\<close>

lemma tenth_plus_fifth:
  "formatResult (js_add (parseFloat ''0.1'') (parseFloat ''0.2'')) = ''0.3''"
  by code_simp

lemma format_NaN: "formatResult NaN = ''0''"
  by code_simp

lemma format_PosInf: "formatResult PosInf = ''0''"
  by code_simp

lemma format_NegInf: "formatResult NegInf = ''0''"
  by code_simp

lemma double_half: "is_double (Fin (1 / 2))"
  by code_simp

lemma format_not_finite: "\<not> isFinite v \<Longrightarrow> formatResult v = ''0''"
  by (cases v) (simp_all add: format_NaN format_PosInf format_NegInf)

lemma tenth_plus_fifth_clicks:
  "clicks [(''digit'', ''0''), (''decimal'', []), (''digit'', ''1''), (''operator'', ''+''),
      (''digit'', ''0''), (''decimal'', []), (''digit'', ''2''), (''equals'', [])] initial
     = initial\<lparr>displayValue := ''0.3''\<rparr>"
  by (simp add: clicks_Nil clicks_Cons buttons initial_def DEFAULT_DISPLAY_def inputDigit_def
      inputDecimal_def handleOperator_def handleEquals_def truthy_def performCalculation_def
      tenth_plus_fifth)

lemma double_3_2: "is_double (Fin (3 / 2))"
  by code_simp

lemma digits_3_2: "shortest_digits (3 / 2) = (15, 1)"
  by code_simp

lemma length_15: "length (digits_of 15) = 2"
  by code_simp

lemma layout_15: "layout (15, 1) = ''1.5''"
  by code_simp

lemma precision_3_2: "precision_digits 12 (3 / 2) = (150000000000, 0)"
  by code_simp

lemma double_of_3_2: "double_of_rat (3 / 2) = Fin (3 / 2)"
  by code_simp

lemma format_3_2: "formatResult (Fin (3 / 2)) = ''1.5''"
  by code_simp

text \<open>
  C8. For every double \<open>v\<close>, \<open>formatResult\<close> returns the \<open>toString\<close> of the number
  that the 12 significant digits of \<open>v\<close> denote (\<open>toPrecision\<close>, read back by
  \<open>parseFloat\<close>), or \<open>0\<close> when that number is not finite. The 12 digits are a
  number \<open>m\<close> of exactly 12 digits and an exponent such that \<open>m * 10 ^ (e - 11)\<close> is
  within half a unit of the twelfth digit of the value, and they are read back as the
  double nearest to that decimal. The string that \<open>toString\<close> gives for a double
  parses back to that double, and its digits are the shortest possible: no decimal with
  fewer significant digits rounds to the same double. A value that is not finite is
  formatted as \<open>0\<close>, and the clicks 0.1 + 0.2 = show \<open>0.3\<close>.
\<close>

theorem format_rounds_to_12_digits:
  "(is_double v \<longrightarrow>
      formatResult v =
        (let result = parseFloat (toPrecision v 12)
         in if isFinite result then toString result else ''0'')) \<and>
   (q \<noteq> 0 \<longrightarrow>
      (let m = fst (precision_digits 12 \<bar>q\<bar>); e = snd (precision_digits 12 \<bar>q\<bar>)
       in 10 ^ 11 \<le> m \<and> m < 10 ^ 12 \<and>
          \<bar>\<bar>q\<bar> - of_int m * pow 10 (e - 11)\<bar> * 2 \<le> pow 10 (floor_log 10 \<bar>q\<bar> - 11) \<and>
          parseFloat (toPrecision (Fin q) 12) = double_of_rat (sgn q * of_int m * pow 10 (e - 11)))) \<and>
   (is_double r \<longrightarrow> parseFloat (toString r) = (if r = NegZero then Fin 0 else r)) \<and>
   (0 < x \<and> is_double (Fin x) \<longrightarrow>
      (let s = fst (shortest_digits x); n = snd (shortest_digits x); k = length (digits_of s)
       in toString (Fin x) = layout (s, n) \<and>
          toString (Fin (- x)) = CHR ''-'' # layout (s, n) \<and>
          double_of_rat (of_int s * pow 10 (n - int k)) = Fin x \<and>
          (\<forall>s' j. 0 < s' \<and> s' < 10 ^ (k - 1) \<longrightarrow>
             double_of_rat (of_int s' * pow 10 j) \<noteq> Fin x))) \<and>
   (\<not> isFinite v \<longrightarrow> formatResult v = ''0'') \<and>
   displayValue (clicks [(''digit'', ''0''), (''decimal'', []), (''digit'', ''1''),
      (''operator'', ''+''), (''digit'', ''0''), (''decimal'', []), (''digit'', ''2''),
      (''equals'', [])] initial) = ''0.3''"
proof (intro conjI impI)
  assume "is_double v"
  then show "formatResult v =
        (let result = parseFloat (toPrecision v 12)
         in if isFinite result then toString result else ''0'')"
    by (rule formatResult_double)
next
  assume q: "q \<noteq> 0"
  then have a: "0 < \<bar>q\<bar>"
    by simp
  from precision_digits_props [OF a, of 12] parse_toPrecision [OF q]
  show "let m = fst (precision_digits 12 \<bar>q\<bar>); e = snd (precision_digits 12 \<bar>q\<bar>)
       in 10 ^ 11 \<le> m \<and> m < 10 ^ 12 \<and>
          \<bar>\<bar>q\<bar> - of_int m * pow 10 (e - 11)\<bar> * 2 \<le> pow 10 (floor_log 10 \<bar>q\<bar> - 11) \<and>
          parseFloat (toPrecision (Fin q) 12) = double_of_rat (sgn q * of_int m * pow 10 (e - 11))"
    by (simp add: Let_def pow_powi)
next
  assume "is_double r"
  then show "parseFloat (toString r) = (if r = NegZero then Fin 0 else r)"
    by (rule parse_toString)
next
  assume "0 < x \<and> is_double (Fin x)"
  then have x: "0 < x" and fx: "double_of_rat x = Fin x"
    by simp_all
  from x shortest_digits_props [OF x fx]
  show "let s = fst (shortest_digits x); n = snd (shortest_digits x); k = length (digits_of s)
       in toString (Fin x) = layout (s, n) \<and>
          toString (Fin (- x)) = CHR ''-'' # layout (s, n) \<and>
          double_of_rat (of_int s * pow 10 (n - int k)) = Fin x \<and>
          (\<forall>s' j. 0 < s' \<and> s' < 10 ^ (k - 1) \<longrightarrow>
             double_of_rat (of_int s' * pow 10 j) \<noteq> Fin x)"
    by (simp add: Let_def pow_powi positive_string_digits)
next
  assume "\<not> isFinite v"
  then show "formatResult v = ''0''"
    by (rule format_not_finite)
next
  show "displayValue (clicks [(''digit'', ''0''), (''decimal'', []), (''digit'', ''1''),
      (''operator'', ''+''), (''digit'', ''0''), (''decimal'', []), (''digit'', ''2''),
      (''equals'', [])] initial) = ''0.3''"
    by (simp add: tenth_plus_fifth_clicks)
qed

theorem format_rounds_to_12_digits_witness:
  "formatResult (Fin (3 / 2)) = ''1.5'' \<and>
   formatResult (Fin (3 / 2)) =
     (let result = parseFloat (toPrecision (Fin (3 / 2)) 12)
      in if isFinite result then toString result else ''0'') \<and>
   parseFloat (toPrecision (Fin (3 / 2)) 12) = Fin (3 / 2) \<and>
   parseFloat (toString (Fin (3 / 2))) = Fin (3 / 2) \<and>
   toString (Fin (3 / 2)) = ''1.5'' \<and>
   double_of_rat (of_int 7 * pow 10 (- 1)) \<noteq> Fin (3 / 2) \<and>
   formatResult PosInf = ''0''"
proof -
  note t = format_rounds_to_12_digits [of "Fin (3 / 2)" "3 / 2" "Fin (3 / 2)" "3 / 2"]
  from t double_3_2
  have f: "formatResult (Fin (3 / 2)) =
     (let result = parseFloat (toPrecision (Fin (3 / 2)) 12)
      in if isFinite result then toString result else ''0'')"
    and r: "parseFloat (toString (Fin (3 / 2))) = Fin (3 / 2)"
    by simp_all
  have "(3 / 2 :: rat) \<noteq> 0"
    by simp
  with t have "let m = fst (precision_digits 12 \<bar>3 / 2\<bar>); e = snd (precision_digits 12 \<bar>3 / 2\<bar>)
       in 10 ^ 11 \<le> m \<and> m < 10 ^ 12 \<and>
          \<bar>\<bar>3 / 2\<bar> - of_int m * pow 10 (e - 11)\<bar> * 2 \<le> pow 10 (floor_log 10 \<bar>3 / 2\<bar> - 11) \<and>
          parseFloat (toPrecision (Fin (3 / 2)) 12) =
            double_of_rat (sgn (3 / 2) * of_int m * pow 10 (e - 11))"
    by blast
  then have p: "parseFloat (toPrecision (Fin (3 / 2)) 12) = Fin (3 / 2)"
    by (simp add: Let_def precision_3_2 pow_def double_of_3_2)
  have "0 < (3 / 2 :: rat) \<and> is_double (Fin (3 / 2))"
    using double_3_2 by simp
  with t have "let s = fst (shortest_digits (3 / 2)); n = snd (shortest_digits (3 / 2));
          k = length (digits_of s)
       in toString (Fin (3 / 2)) = layout (s, n) \<and>
          toString (Fin (- (3 / 2))) = CHR ''-'' # layout (s, n) \<and>
          double_of_rat (of_int s * pow 10 (n - int k)) = Fin (3 / 2) \<and>
          (\<forall>s' j. 0 < s' \<and> s' < 10 ^ (k - 1) \<longrightarrow>
             double_of_rat (of_int s' * pow 10 j) \<noteq> Fin (3 / 2))"
    by blast
  then have s: "toString (Fin (3 / 2)) = ''1.5''"
    and m: "\<forall>s' j. 0 < s' \<and> s' < (10::int) \<longrightarrow> double_of_rat (of_int s' * pow 10 j) \<noteq> Fin (3 / 2)"
    by (simp_all add: Let_def digits_3_2 length_15 layout_15 del: toString.simps)
  from m have "0 < (7::int) \<and> (7::int) < 10 \<longrightarrow>
      double_of_rat (of_int 7 * pow 10 (- 1)) \<noteq> Fin (3 / 2)"
    by blast
  then have n: "double_of_rat (of_int 7 * pow 10 (- 1)) \<noteq> Fin (3 / 2)"
    by simp
  have "\<not> isFinite PosInf"
    by simp
  with format_rounds_to_12_digits [of PosInf] have i: "formatResult PosInf = ''0''"
    by blast
  from f r p s n i show ?thesis
    by (simp add: format_3_2 del: toString.simps)
qed

end
